theory Spec2Isabelle
  imports Main "HOL-Library.Log_Nat" "HOL-Library.List_Lexorder" "HOL-Library.AList"
begin

section \<open>JavaScript numbers\<close>

text \<open>
  A JavaScript number is an IEEE 754 binary64 value. A finite one is modelled by the
  rational it denotes, and every arithmetic operation of the source rounds its exact
  result to the nearest binary64 value, ties to even: 53 significant bits.
  The exponent range is not modelled: magnitudes of \<open>2^1024\<close> and above (where
  JavaScript yields \<open>Infinity\<close>) and below \<open>2^-1022\<close> (subnormals) are outside
  the model, as are \<open>NaN\<close> and the sign of zero. Where the source can produce
  \<open>NaN\<close> (an invalid date), the value is an \<open>option\<close> with \<open>None\<close> for \<open>NaN\<close>.
\<close>

type_synonym number = rat

definition ilog2 :: "rat \<Rightarrow> int" where
  \<comment> \<open>for \<open>0 < x\<close>: the exponent \<open>e\<close> with \<open>2^e \<le> x < 2^(e+1)\<close>\<close>
  "ilog2 x =
     (let (p, q) = quotient_of x;
          d = bitlen p - bitlen q
      in if 2 powi d \<le> x then d else d - 1)"

definition roundTiesToEven :: "rat \<Rightarrow> int" where
  "roundTiesToEven y =
     (let f = \<lfloor>y\<rfloor>; r = y - of_int f
      in if r < 1 / 2 then f
         else if 1 / 2 < r then f + 1
         else if even f then f else f + 1)"

definition binary64 :: "rat \<Rightarrow> number" where
  "binary64 x =
     (if x = 0 then 0
      else let ulp = 2 powi (ilog2 \<bar>x\<bar> - 52)
           in of_int (roundTiesToEven (x / ulp)) * ulp)"

definition number_add :: "number \<Rightarrow> number \<Rightarrow> number" where
  "number_add a b = binary64 (a + b)"

definition number_mul :: "number \<Rightarrow> number \<Rightarrow> number" where
  "number_mul a b = binary64 (a * b)"

definition number_div :: "number \<Rightarrow> number \<Rightarrow> number" where
  \<comment> \<open>every division of the source has a non-zero divisor: \<open>100\<close>, or a length guarded by \<open>> 0\<close>\<close>
  "number_div a b = binary64 (a / b)"

definition Math_round :: "number \<Rightarrow> number" where
  \<comment> \<open>\<open>Math.round\<close>: the nearest integer, ties towards \<open>+\<infinity>\<close>; exact on binary64\<close>
  "Math_round x = of_int \<lfloor>x + 1 / 2\<rfloor>"

section \<open>Strings of numbers\<close>

function digits :: "int \<Rightarrow> string" where
  \<comment> \<open>the decimal digits of a non-negative integer\<close>
  "digits n =
     (if n < 10 then [char_of (48 + n)]
      else digits (n div 10) @ [char_of (48 + n mod 10)])"
  by pat_completeness auto
termination
  by (relation "measure nat") auto

declare digits.simps [simp del]

definition int_toString :: "int \<Rightarrow> string" where
  "int_toString i = (if i < 0 then ''-'' @ digits (- i) else digits i)"

definition padStart :: "nat \<Rightarrow> char \<Rightarrow> string \<Rightarrow> string" where
  "padStart n c s = replicate (n - length s) c @ s"

text \<open>
  The parts of the JavaScript host that the service reads and that are not part of the
  repository: ECMAScript's \<open>LocalTZA(t, isUTC)\<close>, the offset of local time from UTC in
  milliseconds in force at the time value \<open>t\<close> (read as UTC when \<open>isUTC\<close> holds, as
  local time otherwise), \<open>Date.parse\<close> on the argument strings (\<open>None\<close> for \<open>NaN\<close>),
  and \<open>Number::toString\<close>, which \<open>toFixed\<close> falls back to from \<open>10^21\<close> on.
\<close>

record host =
  LocalTZA :: "int \<Rightarrow> bool \<Rightarrow> int"
  Date_parse :: "string \<Rightarrow> int option"
  Number_toString :: "number \<Rightarrow> string"

definition toFixed2 :: "host \<Rightarrow> number \<Rightarrow> string" where
  \<comment> \<open>\<open>x.toFixed(2)\<close>: the decimal nearest to the exact value of \<open>x\<close>, the larger on a tie\<close>
  "toFixed2 h x =
     (let s = (if x < 0 then ''-'' else '''');
          a = \<bar>x\<bar>
      in if 10 ^ 21 \<le> a then s @ Number_toString h a
         else let n = \<lfloor>a * 100 + 1 / 2\<rfloor>;
                  m = padStart 3 CHR ''0'' (digits n);
                  k = length m
              in s @ take (k - 2) m @ ''.'' @ drop (k - 2) m)"

section \<open>Dates\<close>

text \<open>
  A \<open>Date\<close> holds a time value: milliseconds since the epoch, or \<open>NaN\<close> (\<open>None\<close>, the
  invalid date) outside \<open>\<plusminus>8.64 \<times> 10^15\<close>. The calendar functions follow
  ECMAScript's \<open>Day\<close>, \<open>WeekDay\<close>, \<open>YearFromTime\<close>, \<open>MonthFromTime\<close> and
  \<open>DateFromTime\<close> on the proleptic Gregorian calendar.
\<close>

definition msPerDay :: int where
  "msPerDay = 86400000"

definition Day :: "int \<Rightarrow> int" where
  "Day t = t div msPerDay"

definition TimeWithinDay :: "int \<Rightarrow> int" where
  "TimeWithinDay t = t mod msPerDay"

definition WeekDay :: "int \<Rightarrow> int" where
  \<comment> \<open>0 is Sunday; day 0 (1 January 1970) is a Thursday\<close>
  "WeekDay t = (Day t + 4) mod 7"

definition civil_from_days :: "int \<Rightarrow> int \<times> int \<times> int" where
  \<comment> \<open>year, month (1 to 12) and day of the month of a day number\<close>
  "civil_from_days z0 =
     (let z = z0 + 719468;
          era = z div 146097;
          doe = z - era * 146097;
          yoe = (doe - doe div 1460 + doe div 36524 - doe div 146096) div 365;
          doy = doe - (365 * yoe + yoe div 4 - yoe div 100);
          mp = (5 * doy + 2) div 153;
          d = doy - (153 * mp + 2) div 5 + 1;
          m = (if mp < 10 then mp + 3 else mp - 9);
          y = yoe + era * 400 + (if m \<le> 2 then 1 else 0)
      in (y, m, d))"

definition YearFromTime :: "int \<Rightarrow> int" where
  "YearFromTime t = fst (civil_from_days (Day t))"

definition MonthFromTime :: "int \<Rightarrow> int" where
  \<comment> \<open>0 is January\<close>
  "MonthFromTime t = fst (snd (civil_from_days (Day t))) - 1"

definition DateFromTime :: "int \<Rightarrow> int" where
  "DateFromTime t = snd (snd (civil_from_days (Day t)))"

definition TimeClip :: "int \<Rightarrow> int option" where
  "TimeClip t = (if 8640000000000000 < \<bar>t\<bar> then None else Some t)"

datatype thrown = Error string | NonError

definition pad_int :: "nat \<Rightarrow> int \<Rightarrow> string" where
  "pad_int n i = padStart n CHR ''0'' (digits i)"

definition toISOString :: "int option \<Rightarrow> thrown + string" where
  "toISOString date =
     (case date of
        None \<Rightarrow> Inl (Error ''Invalid time value'')
      | Some t \<Rightarrow>
          let y = YearFromTime t;
              yyyy = (if 0 \<le> y \<and> y \<le> 9999 then pad_int 4 y
                      else (if y < 0 then ''-'' else ''+'') @ pad_int 6 \<bar>y\<bar>);
              w = TimeWithinDay t
          in Inr (yyyy @ ''-'' @ pad_int 2 (MonthFromTime t + 1) @ ''-'' @ pad_int 2 (DateFromTime t)
                  @ ''T'' @ pad_int 2 (w div 3600000) @ '':'' @ pad_int 2 (w div 60000 mod 60)
                  @ '':'' @ pad_int 2 (w div 1000 mod 60) @ ''.'' @ pad_int 3 (w mod 1000) @ ''Z''))"

definition split_T_0 :: "string \<Rightarrow> string" where
  \<comment> \<open>\<open>s.split("T")[0]\<close>\<close>
  "split_T_0 s = takeWhile (\<lambda>c. c \<noteq> CHR ''T'') s"

definition LocalTime :: "host \<Rightarrow> int \<Rightarrow> int" where
  "LocalTime h t = t + LocalTZA h t True"

definition getDate :: "host \<Rightarrow> int option \<Rightarrow> int option" where
  "getDate h date = map_option (\<lambda>t. DateFromTime (LocalTime h t)) date"

definition getDay :: "host \<Rightarrow> int option \<Rightarrow> int option" where
  "getDay h date = map_option (\<lambda>t. WeekDay (LocalTime h t)) date"

definition getFullYear :: "host \<Rightarrow> int option \<Rightarrow> int option" where
  "getFullYear h date = map_option (\<lambda>t. YearFromTime (LocalTime h t)) date"

definition getMonth :: "host \<Rightarrow> int option \<Rightarrow> int option" where
  "getMonth h date = map_option (\<lambda>t. MonthFromTime (LocalTime h t)) date"

definition UTC :: "host \<Rightarrow> int \<Rightarrow> int" where
  "UTC h t = t - LocalTZA h t False"

definition setDate :: "host \<Rightarrow> int option \<Rightarrow> int option \<Rightarrow> int option" where
  \<comment> \<open>keeps the local year, month and time of day; the day number of the first of the local
      month is \<open>Day lt - (DateFromTime lt - 1)\<close>, and \<open>MakeDay\<close> adds \<open>dt - 1\<close> to it\<close>
  "setDate h date dt =
     (case (date, dt) of
        (Some t, Some d) \<Rightarrow>
          let lt = LocalTime h t;
              newDay = Day lt - (DateFromTime lt - 1) + d - 1;
              newDate = newDay * msPerDay + TimeWithinDay lt
          in TimeClip (UTC h newDate)
      | _ \<Rightarrow> None)"

definition opt_toString :: "int option \<Rightarrow> string" where
  \<comment> \<open>\<open>String(n)\<close> of an integral number or \<open>NaN\<close>\<close>
  "opt_toString n = (case n of None \<Rightarrow> ''NaN'' | Some i \<Rightarrow> int_toString i)"

section \<open>The charges and their buckets\<close>

record charge =
  charge_id :: string
  amount :: int
  created :: int
  status :: string

datatype groupBy = day | week | month

record tally =
  tally_revenue :: number
  tally_count :: nat

record period_entry =
  period :: string
  revenue :: number
  transactionCount :: nat

definition periodKey :: "host \<Rightarrow> groupBy \<Rightarrow> charge \<Rightarrow> thrown + string" where
  "periodKey h g c =
     (let date = TimeClip (created c * 1000)
      in case g of
           day \<Rightarrow> map_sum (\<lambda>e. e) split_T_0 (toISOString date)
         | week \<Rightarrow>
             let weekStart = setDate h date
                   (case (getDate h date, getDay h date) of
                      (Some d, Some w) \<Rightarrow> Some (d - w + 1)
                    | _ \<Rightarrow> None)
             in map_sum (\<lambda>e. e) split_T_0 (toISOString weekStart)
         | month \<Rightarrow>
             Inr (opt_toString (getFullYear h date) @ ''-'' @
                  padStart 2 CHR ''0'' (opt_toString (map_option (\<lambda>m. m + 1) (getMonth h date)))))"

definition Map_get_or :: "(string \<times> tally) list \<Rightarrow> string \<Rightarrow> tally" where
  \<comment> \<open>\<open>grouped.get(periodKey) || { revenue: 0, count: 0 }\<close>\<close>
  "Map_get_or grouped k =
     (case map_of grouped k of
        Some existing \<Rightarrow> existing
      | None \<Rightarrow> \<lparr>tally_revenue = 0, tally_count = 0\<rparr>)"

definition addCharge ::
  "host \<Rightarrow> groupBy \<Rightarrow> (string \<times> tally) list \<Rightarrow> charge \<Rightarrow> thrown + (string \<times> tally) list" where
  \<comment> \<open>the body of the \<open>forEach\<close>; a \<open>Map\<close> keeps its keys in insertion order\<close>
  "addCharge h g grouped c =
     (case periodKey h g c of
        Inl e \<Rightarrow> Inl e
      | Inr k \<Rightarrow>
          let existing = Map_get_or grouped k
          in Inr (AList.update k
                    \<lparr>tally_revenue = number_add (tally_revenue existing) (number_div (of_int (amount c)) 100),
                     tally_count = tally_count existing + 1\<rparr>
                    grouped))"

fun forEach_charge ::
  "host \<Rightarrow> groupBy \<Rightarrow> charge list \<Rightarrow> (string \<times> tally) list \<Rightarrow> thrown + (string \<times> tally) list" where
  "forEach_charge h g [] grouped = Inr grouped"
| "forEach_charge h g (c # cs) grouped =
     (case addCharge h g grouped c of
        Inl e \<Rightarrow> Inl e
      | Inr grouped' \<Rightarrow> forEach_charge h g cs grouped')"

definition collation_rank :: "char \<Rightarrow> nat" where
  \<comment> \<open>the order of \<open>localeCompare\<close> on the characters of period keys: hyphen before
      plus before the digits; the letters of \<open>NaN-NaN\<close> come after them and only ever
      meet a digit, a sign or themselves\<close>
  "collation_rank c =
     (if c = CHR ''-'' then 0 else if c = CHR ''+'' then 1 else 2 + of_char c)"

definition to_entry :: "string \<times> tally \<Rightarrow> period_entry" where
  "to_entry kv =
     \<lparr>period = fst kv,
      revenue = number_div (Math_round (number_mul (tally_revenue (snd kv)) 100)) 100,
      transactionCount = tally_count (snd kv)\<rparr>"

definition groupChargesByPeriod :: "host \<Rightarrow> charge list \<Rightarrow> groupBy \<Rightarrow> thrown + period_entry list" where
  "groupChargesByPeriod h charges g =
     (case forEach_charge h g charges [] of
        Inl e \<Rightarrow> Inl e
      | Inr grouped \<Rightarrow>
          Inr (sort_key (\<lambda>e. map collation_rank (period e)) (map to_entry grouped)))"

section \<open>Insights\<close>

definition generateInsights :: "host \<Rightarrow> period_entry list \<Rightarrow> number \<Rightarrow> string list" where
  \<comment> \<open>\<open>Array.prototype.sort\<close> is stable; the comparator \<open>b.revenue - a.revenue\<close> orders by
      descending revenue\<close>
  "generateInsights h periodData totalRevenue =
     (let insights0 = [];
          insights1 =
            (if length periodData > 0 then
               let sortedByRevenue = sort_key (\<lambda>e. - revenue e) periodData;
                   best = hd sortedByRevenue;
                   worst = last sortedByRevenue;
                   pushed = insights0 @
                     [''Highest revenue period: '' @ period best @ '' with $'' @
                      toFixed2 h (revenue best)]
               in if length periodData > 1
                  then pushed @
                     [''Lowest revenue period: '' @ period worst @ '' with $'' @
                      toFixed2 h (revenue worst)]
                  else pushed
             else insights0);
          avgPerPeriod =
            (if length periodData > 0
             then number_div totalRevenue (of_nat (length periodData)) else 0);
          insights2 = insights1 @ [''Average revenue per period: $'' @ toFixed2 h avgPerPeriod];
          totalTransactions = foldl (\<lambda>sum p. sum + transactionCount p) 0 periodData
      in if totalTransactions > 0
         then insights2 @
           [''Processed '' @ digits (int totalTransactions) @
            '' successful transactions during this period.'']
         else insights2)"

section \<open>The payments ledger\<close>

text \<open>
  The external payments API is a parameter: each endpoint answers a request with a
  result or throws. A thrown value is an \<open>Error\<close> with its message or any other value.
\<close>

record list_params =
  created_gte :: "int option"
  created_lte :: "int option"
  list_limit :: nat
  starting_after :: "string option"

record charge_page =
  data :: "charge list"
  has_more :: bool

record refund_params =
  payment_intent :: string
  params_amount :: number

record refund =
  refund_amount :: number

record stripe =
  charges_list :: "list_params \<Rightarrow> thrown + charge_page"
  refunds_create :: "refund_params \<Rightarrow> thrown + refund"

section \<open>Revenue trends\<close>

record analyze_args =
  startDate :: string
  endDate :: string
  groupBy_arg :: groupBy

record summary =
  totalRevenue :: number
  summary_transactionCount :: nat
  averageTransaction :: number

record payload =
  summary :: summary
  periodData :: "period_entry list"
  insights :: "string list"
  error :: "string option"

definition toTimestamp :: "host \<Rightarrow> string \<Rightarrow> int option" where
  \<comment> \<open>\<open>Math.floor(new Date(s).getTime() / 1000)\<close>\<close>
  "toTimestamp h s =
     (case Date_parse h s of
        None \<Rightarrow> None
      | Some t \<Rightarrow> map_option (\<lambda>t. \<lfloor>number_div (of_int t) 1000\<rfloor>) (TimeClip t))"

partial_function (option) fetchCharges ::
  "stripe \<Rightarrow> int option \<Rightarrow> int option \<Rightarrow> string option \<Rightarrow> charge list \<Rightarrow>
   (thrown + charge list) option" where
  "fetchCharges api startTimestamp endTimestamp startingAfter charges =
     (case charges_list api
             \<lparr>created_gte = startTimestamp, created_lte = endTimestamp,
              list_limit = 100, starting_after = startingAfter\<rparr> of
        Inl e \<Rightarrow> Some (Inl e)
      | Inr response \<Rightarrow>
          let successfulCharges = filter (\<lambda>c. status c = ''succeeded'') (data response);
              charges' = charges @ successfulCharges;
              hasMore = has_more response;
              startingAfter' =
                (if hasMore \<and> length (data response) > 0
                 then Some (charge_id (last (data response))) else startingAfter)
          in if hasMore
             then fetchCharges api startTimestamp endTimestamp startingAfter' charges'
             else Some (Inr charges'))"

declare fetchCharges.simps [code]


definition page_view :: "charge_page \<Rightarrow> bool \<times> string option \<times> charge list" where
  \<comment> \<open>what the loop reads of a response: \<open>has_more\<close>, the cursor it moves to, and
      the charges it keeps\<close>
  "page_view response =
     (has_more response,
      (if has_more response \<and> length (data response) > 0
       then Some (charge_id (last (data response))) else None),
      filter (\<lambda>c. status c = ''succeeded'') (data response))"

definition summarize :: "host \<Rightarrow> groupBy \<Rightarrow> charge list \<Rightarrow> thrown + payload" where
  \<comment> \<open>the rest of the \<open>try\<close> block, from the fetched charges on\<close>
  "summarize h g charges =
     (let totalRevenue =
            number_div (foldl (\<lambda>sum c. number_add sum (of_int (amount c))) 0 charges) 100;
          transactionCount = length charges;
          averageTransaction =
            (if transactionCount > 0
             then number_div totalRevenue (of_nat transactionCount) else 0)
      in case groupChargesByPeriod h charges g of
           Inl e \<Rightarrow> Inl e
         | Inr groupedData \<Rightarrow>
             let insights = generateInsights h groupedData totalRevenue
             in Inr \<lparr>summary =
                       \<lparr>totalRevenue = totalRevenue,
                        summary_transactionCount = transactionCount,
                        averageTransaction =
                          number_div (Math_round (number_mul averageTransaction 100)) 100\<rparr>,
                     periodData = groupedData,
                     insights = insights,
                     error = None\<rparr>)"

definition errorMessage :: "thrown \<Rightarrow> string" where
  \<comment> \<open>\<open>error instanceof Error ? error.message : "Unknown error"\<close>\<close>
  "errorMessage e = (case e of Error m \<Rightarrow> m | NonError \<Rightarrow> ''Unknown error'')"

definition analyze_failed :: "thrown \<Rightarrow> payload" where
  \<comment> \<open>the \<open>catch\<close> block\<close>
  "analyze_failed e =
     \<lparr>summary = \<lparr>totalRevenue = 0, summary_transactionCount = 0, averageTransaction = 0\<rparr>,
      periodData = [],
      insights = [],
      error = Some (''Failed to analyze revenue trends: '' @ errorMessage e)\<rparr>"

definition analyzeRevenueTrends_try ::
  "host \<Rightarrow> stripe \<Rightarrow> analyze_args \<Rightarrow> (thrown + payload) option" where
  \<comment> \<open>the \<open>try\<close> block: \<open>None\<close> when the pagination never ends, \<open>Inl\<close> what it throws\<close>
  "analyzeRevenueTrends_try h api args =
     (let startTimestamp = toTimestamp h (startDate args);
          endTimestamp = toTimestamp h (endDate args)
      in case fetchCharges api startTimestamp endTimestamp None [] of
           None \<Rightarrow> None
         | Some (Inl e) \<Rightarrow> Some (Inl e)
         | Some (Inr charges) \<Rightarrow> Some (summarize h (groupBy_arg args) charges))"

definition analyzeRevenueTrends :: "host \<Rightarrow> stripe \<Rightarrow> analyze_args \<Rightarrow> payload option" where
  "analyzeRevenueTrends h api args =
     (case analyzeRevenueTrends_try h api args of
        None \<Rightarrow> None
      | Some (Inl e) \<Rightarrow> Some (analyze_failed e)
      | Some (Inr p) \<Rightarrow> Some p)"

section \<open>Refunds\<close>

record refund_args =
  paymentIntentId :: string
  args_amount :: number

record refund_result =
  refund_status :: string
  amountRefunded :: number
  refund_error :: "string option"

definition refund_request :: "refund_args \<Rightarrow> refund_params" where
  \<comment> \<open>the argument of \<open>stripe.refunds.create\<close>\<close>
  "refund_request args =
     \<lparr>payment_intent = paymentIntentId args,
      params_amount = Math_round (number_mul (args_amount args) 100)\<rparr>"

definition issueRefund :: "stripe \<Rightarrow> refund_args \<Rightarrow> refund_result" where
  "issueRefund api args =
     (case refunds_create api (refund_request args) of
        Inr refund \<Rightarrow>
          \<lparr>refund_status = ''success'',
           amountRefunded = number_div (refund_amount refund) 100,
           refund_error = None\<rparr>
      | Inl e \<Rightarrow>
          \<lparr>refund_status = ''error'',
           amountRefunded = 0,
           refund_error = Some (''Failed to issue refund: '' @ errorMessage e)\<rparr>)"

section \<open>Example inputs\<close>

text \<open>
  A host running in UTC, a date range, and ledgers that answer every listing request
  with one last page; they are the concrete inputs of the examples below.
  \<open>Number_toString\<close> is not reached by any of them.
\<close>

definition utc_host :: host where
  "utc_host =
     \<lparr>LocalTZA = (\<lambda>t isUTC. 0),
      Date_parse = map_of [(''2024-01-01'', 1704067200000), (''2024-01-31'', 1706659200000)],
      Number_toString = (\<lambda>x. [])\<rparr>"

definition january :: analyze_args where
  "january = \<lparr>startDate = ''2024-01-01'', endDate = ''2024-01-31'', groupBy_arg = day\<rparr>"

definition one_page :: "charge list \<Rightarrow> stripe" where
  "one_page cs =
     \<lparr>charges_list = (\<lambda>params. Inr \<lparr>data = cs, has_more = False\<rparr>),
      refunds_create = (\<lambda>params. Inl NonError)\<rparr>"

definition sunday_charge :: charge where
  \<comment> \<open>created on Sunday 7 January 2024, 12:00 UTC\<close>
  "sunday_charge =
     \<lparr>charge_id = ''ch_1'', amount = 1000, created = 1704628800, status = ''succeeded''\<rparr>"

definition confirming_500 :: stripe where
  \<comment> \<open>a ledger that confirms a refund of 500 minor units, whatever was asked\<close>
  "confirming_500 =
     \<lparr>charges_list = (\<lambda>params. Inr \<lparr>data = [], has_more = False\<rparr>),
      refunds_create = (\<lambda>params. Inr \<lparr>refund_amount = 500\<rparr>)\<rparr>"

definition rejecting :: stripe where
  "rejecting =
     \<lparr>charges_list = (\<lambda>params. Inl (Error ''Connection refused'')),
      refunds_create = (\<lambda>params. Inl (Error ''Refund amount exceeds charge amount''))\<rparr>"

definition refund_19_99 :: refund_args where
  \<comment> \<open>the number 19.99\<close>
  "refund_19_99 = \<lparr>paymentIntentId = ''pi_1'', args_amount = 5626684784446013 / 281474976710656\<rparr>"



definition jan01 :: period_entry where
  "jan01 = \<lparr>period = ''2024-01-01'', revenue = 1, transactionCount = 1\<rparr>"

definition jan02 :: period_entry where
  "jan02 = \<lparr>period = ''2024-01-02'', revenue = 5, transactionCount = 2\<rparr>"

definition jan03 :: period_entry where
  "jan03 = \<lparr>period = ''2024-01-03'', revenue = 5, transactionCount = 3\<rparr>"

definition sample_charges :: "charge list" where
  "sample_charges =
     [\<lparr>charge_id = ''ch_1'', amount = 1000, created = 1704067200, status = ''succeeded''\<rparr>,
      \<lparr>charge_id = ''ch_2'', amount = 99999, created = 1704070800, status = ''failed''\<rparr>,
      \<lparr>charge_id = ''ch_3'', amount = 2000, created = 1704074400, status = ''succeeded''\<rparr>,
      \<lparr>charge_id = ''ch_4'', amount = 1500, created = 1704153600, status = ''succeeded''\<rparr>]"

definition sample_payload :: payload where
  "sample_payload =
     \<lparr>summary = \<lparr>totalRevenue = 45, summary_transactionCount = 3, averageTransaction = 15\<rparr>,
      periodData =
        [\<lparr>period = ''2024-01-01'', revenue = 30, transactionCount = 2\<rparr>,
         \<lparr>period = ''2024-01-02'', revenue = 15, transactionCount = 1\<rparr>],
      insights =
        [''Highest revenue period: 2024-01-01 with $30.00'',
         ''Lowest revenue period: 2024-01-02 with $15.00'',
         ''Average revenue per period: $22.50'',
         ''Processed 3 successful transactions during this period.''],
      error = None\<rparr>"

definition settled_charges :: "charge list" where
  "settled_charges =
     [\<lparr>charge_id = ''ch_1'', amount = 1000, created = 1704067200, status = ''succeeded''\<rparr>,
      \<lparr>charge_id = ''ch_3'', amount = 2000, created = 1704074400, status = ''succeeded''\<rparr>,
      \<lparr>charge_id = ''ch_4'', amount = 1500, created = 1704153600, status = ''succeeded''\<rparr>]"

definition drift_charges :: "charge list" where
  "drift_charges =
     [\<lparr>charge_id = ''ch_1'', amount = 900000000000013, created = 1704067200,
       status = ''succeeded''\<rparr>,
      \<lparr>charge_id = ''ch_2'', amount = 900000000000046, created = 1704070800,
       status = ''succeeded''\<rparr>]"

definition heavy_charges :: "charge list" where
  "heavy_charges =
     [\<lparr>charge_id = ''ch_1'', amount = 900000000000013, created = 1704067200,
       status = ''succeeded''\<rparr>,
      \<lparr>charge_id = ''ch_2'', amount = 900000000000021, created = 1704070800,
       status = ''succeeded''\<rparr>]"

section \<open>Basic facts\<close>

lemma binary64_0 [simp]: "binary64 0 = 0"
  by (simp add: binary64_def)

lemma floor_half: "\<lfloor>(1::rat) / 2\<rfloor> = 0"
  by code_simp

lemma digits_0: "digits 0 = ''0''"
  by code_simp

lemma Math_round_0 [simp]: "Math_round 0 = 0"
  by (simp add: Math_round_def floor_half)

lemma toFixed2_0: "toFixed2 h 0 = ''0.00''"
  by (simp add: toFixed2_def padStart_def digits_0 floor_half Let_def)


section \<open>Rounding to binary64\<close>

text \<open>
  \<open>binary64\<close> rounds to a significand of 53 bits: the result is an integer between
  \<open>2^52\<close> and \<open>2^53\<close> times a power of two, within half a unit in the last place of
  its argument, and integers up to \<open>2^53\<close> are kept.
\<close>

lemma ilog2_le:
  assumes "0 < x"
  shows "2 powi (ilog2 x) \<le> x"
proof -
  obtain p q where pq: "quotient_of x = (p, q)"
    by (cases "quotient_of x")
  then have q: "0 < q" and x: "x = of_int p / of_int q"
    by (simp_all add: quotient_of_denom_pos quotient_of_div)
  from assms q x have p: "0 < p"
    by (simp add: zero_less_divide_iff)
  let ?d = "bitlen p - bitlen q"
  show ?thesis
  proof (cases "2 powi ?d \<le> x")
    case True
    with pq show ?thesis
      by (simp add: ilog2_def)
  next
    case False
    from bitlen_bounds [OF p] have lp: "2 ^ nat (bitlen p - 1) \<le> p"
      by simp
    from bitlen_bounds [OF q] have uq: "q < 2 ^ nat (bitlen q)"
      by simp
    from p have bp: "1 \<le> bitlen p"
      by (simp add: bitlen_alt_def)
    have bq: "0 \<le> bitlen q"
      by (rule bitlen_nonneg)
    have "?d - 1 = (bitlen p - 1) - bitlen q"
      by simp
    then have "(2::rat) powi (?d - 1) = 2 powi (bitlen p - 1) / 2 powi (bitlen q)"
      by (simp only: power_int_diff [of "2::rat", simplified])
    also have "\<dots> = 2 ^ nat (bitlen p - 1) / 2 ^ nat (bitlen q)"
      using bp bq by (simp add: power_int_def)
    also have "\<dots> \<le> of_int p / of_int q"
    proof -
      have "(2::rat) ^ nat (bitlen p - 1) \<le> of_int p"
        using lp by (metis of_int_le_iff of_int_numeral of_int_power)
      moreover have "(of_int q :: rat) \<le> 2 ^ nat (bitlen q)"
        using uq by (metis less_imp_le of_int_le_iff of_int_numeral of_int_power)
      moreover have "(0::rat) < of_int q"
        using q by simp
      moreover have "(0::rat) \<le> of_int p"
        using p by simp
      ultimately show ?thesis
        by (intro frac_le) simp_all
    qed
    finally have "(2::rat) powi (?d - 1) \<le> x"
      by (simp add: x)
    with False pq show ?thesis
      by (simp add: ilog2_def)
  qed
qed

lemma ilog2_less:
  assumes "0 < x"
  shows "x < 2 powi (ilog2 x + 1)"
proof -
  obtain p q where pq: "quotient_of x = (p, q)"
    by (cases "quotient_of x")
  then have q: "0 < q" and x: "x = of_int p / of_int q"
    by (simp_all add: quotient_of_denom_pos quotient_of_div)
  from assms q x have p: "0 < p"
    by (simp add: zero_less_divide_iff)
  let ?d = "bitlen p - bitlen q"
  show ?thesis
  proof (cases "2 powi ?d \<le> x")
    case False
    with pq show ?thesis
      by (simp add: ilog2_def)
  next
    case True
    from bitlen_bounds [OF p] have up: "p < 2 ^ nat (bitlen p)"
      by simp
    from bitlen_bounds [OF q] have lq: "2 ^ nat (bitlen q - 1) \<le> q"
      by simp
    from q have bq: "1 \<le> bitlen q"
      by (simp add: bitlen_alt_def)
    have bp: "0 \<le> bitlen p"
      by (rule bitlen_nonneg)
    have "of_int p / of_int q < (2::rat) ^ nat (bitlen p) / 2 ^ nat (bitlen q - 1)"
    proof -
      have "(of_int p :: rat) < 2 ^ nat (bitlen p)"
        using up by (metis of_int_less_iff of_int_numeral of_int_power)
      moreover have "(2::rat) ^ nat (bitlen q - 1) \<le> of_int q"
        using lq by (metis of_int_le_iff of_int_numeral of_int_power)
      moreover have "(0::rat) < 2 ^ nat (bitlen q - 1)" and "(0::rat) \<le> of_int p"
        using p by simp_all
      ultimately show ?thesis
        by (intro frac_less) simp_all
    qed
    also have "\<dots> = 2 powi (bitlen p) / 2 powi (bitlen q - 1)"
      using bp bq by (simp add: power_int_def)
    also have "\<dots> = 2 powi (bitlen p - (bitlen q - 1))"
      by (simp only: power_int_diff [of "2::rat", simplified])
    also have "bitlen p - (bitlen q - 1) = ?d + 1"
      by simp
    finally have "x < 2 powi (?d + 1)"
      by (simp add: x)
    with True pq show ?thesis
      by (simp add: ilog2_def)
  qed
qed

lemma roundTiesToEven_error: "\<bar>of_int (roundTiesToEven y) - y\<bar> \<le> 1 / 2"
proof -
  have "of_int \<lfloor>y\<rfloor> \<le> y" "y < of_int \<lfloor>y\<rfloor> + 1"
    by linarith+
  then show ?thesis
    by (auto simp: roundTiesToEven_def Let_def abs_le_iff)
qed

lemma roundTiesToEven_of_int [simp]: "roundTiesToEven (of_int n) = n"
  by (simp add: roundTiesToEven_def)

lemma roundTiesToEven_between:
  "\<lfloor>y\<rfloor> \<le> roundTiesToEven y \<and> roundTiesToEven y \<le> \<lceil>y\<rceil>"
proof -
  have "\<lfloor>y\<rfloor> + 1 \<le> \<lceil>y\<rceil>" if "y \<noteq> of_int \<lfloor>y\<rfloor>"
    using that by (metis ceiling_altdef order_refl)
  then show ?thesis
    by (auto simp: roundTiesToEven_def Let_def)
qed

lemma binary64_significand:
  assumes "0 < x"
  shows "\<exists>m. 2 ^ 52 \<le> m \<and> m \<le> 2 ^ 53 \<and> binary64 x = of_int m * 2 powi (ilog2 x - 52)"
proof -
  let ?s = "(2::rat) powi (ilog2 x - 52)"
  let ?y = "x / ?s"
  have s: "0 < ?s"
    by simp
  have e: "(2::rat) powi ilog2 x = 2 ^ 52 * ?s" "(2::rat) powi (ilog2 x + 1) = 2 ^ 53 * ?s"
    by (simp_all add: power_int_diff power_int_add)
  from ilog2_le [OF assms] e(1) s have lo: "2 ^ 52 \<le> ?y"
    by (simp add: pos_le_divide_eq)
  from ilog2_less [OF assms] e(2) s have hi: "?y < 2 ^ 53"
    by (simp add: pos_divide_less_eq)
  from lo have "(2::int) ^ 52 \<le> \<lfloor>?y\<rfloor>"
    by (metis le_floor_iff of_int_numeral of_int_power)
  moreover from hi have "\<lceil>?y\<rceil> \<le> (2::int) ^ 53"
    by (metis ceiling_le_iff less_imp_le of_int_numeral of_int_power)
  ultimately have "2 ^ 52 \<le> roundTiesToEven ?y" "roundTiesToEven ?y \<le> 2 ^ 53"
    using roundTiesToEven_between [of ?y] by linarith+
  moreover have "binary64 x = of_int (roundTiesToEven ?y) * ?s"
    using assms by (simp add: binary64_def Let_def)
  ultimately show ?thesis
    by blast
qed

lemma binary64_error: "\<bar>binary64 x - x\<bar> \<le> \<bar>x\<bar> / 2 ^ 53"
proof (cases "x = 0")
  case True
  then show ?thesis by simp
next
  case False
  let ?e = "ilog2 \<bar>x\<bar>"
  let ?s = "(2::rat) powi (?e - 52)"
  have s: "0 < ?s"
    by simp
  have "binary64 x - x = (of_int (roundTiesToEven (x / ?s)) - x / ?s) * ?s"
    using False s by (simp add: binary64_def Let_def algebra_simps)
  then have "\<bar>binary64 x - x\<bar> = \<bar>of_int (roundTiesToEven (x / ?s)) - x / ?s\<bar> * ?s"
    using s by (simp add: abs_mult)
  also have "\<dots> \<le> 1 / 2 * ?s"
    using roundTiesToEven_error [of "x / ?s"] s by (intro mult_right_mono) simp_all
  also have "\<dots> = 2 powi ?e / 2 ^ 53"
  proof -
    have "(2::rat) powi (?e - 52) = 2 powi ?e / 2 powi 52"
      by (simp add: power_int_diff)
    then show ?thesis
      by simp
  qed
  also have "\<dots> \<le> \<bar>x\<bar> / 2 ^ 53"
    using ilog2_le [of "\<bar>x\<bar>"] False by (intro divide_right_mono) simp_all
  finally show ?thesis .
qed

lemma binary64_of_int:
  assumes "\<bar>n\<bar> \<le> 2 ^ 53"
  shows "binary64 (of_int n) = of_int n"
proof (cases "n = 0")
  case True
  then show ?thesis by simp
next
  case False
  let ?x = "of_int n :: rat"
  let ?e = "ilog2 \<bar>?x\<bar>"
  let ?s = "(2::rat) powi (?e - 52)"
  have le: "2 powi ?e \<le> \<bar>?x\<bar>"
    using False by (intro ilog2_le) simp
  have ub: "\<bar>?x\<bar> \<le> 2 ^ 53"
    using assms by (metis of_int_abs of_int_le_iff of_int_numeral of_int_power)
  have "\<exists>k. ?x / ?s = of_int k"
  proof (cases "?e \<le> 52")
    case True
    then have "?s = 1 / 2 ^ nat (52 - ?e)"
      by (smt (verit) power_int_def power_int_minus inverse_eq_divide int_nat_eq power_int_of_nat)
    then have "?x / ?s = of_int (n * 2 ^ nat (52 - ?e))"
      by simp
    then show ?thesis ..
  next
    case False
    have "(2::rat) powi ?e \<le> 2 powi 53"
      using le ub by simp
    then have "?e \<le> 53"
      by (rule power_int_le_imp_le_exp [rotated]) simp_all
    with False have e: "?e = 53"
      by simp
    with le ub have "\<bar>?x\<bar> = 2 ^ 53"
      by simp
    then have "\<bar>n\<bar> = 2 ^ 53"
      by (metis of_int_abs of_int_eq_iff of_int_numeral of_int_power)
    then have "n = 2 ^ 53 \<or> n = - (2 ^ 53)"
      by linarith
    then have "?x / 2 = of_int (n div 2)"
      by auto
    with e show ?thesis
      by auto
  qed
  then obtain k where k: "?x / ?s = of_int k" ..
  have "binary64 ?x = of_int (roundTiesToEven (?x / ?s)) * ?s"
    using False by (simp add: binary64_def Let_def)
  also have "\<dots> = ?x / ?s * ?s"
    unfolding k by simp
  also have "\<dots> = ?x"
    by simp
  finally show ?thesis .
qed

section \<open>Week keys\<close>

text \<open>
  C1. With granularity week the bucket key should be the Monday on or before the
  creation date, so a charge created on a Sunday belongs to the Monday six days
  earlier. The source computes \<open>getDate() - getDay() + 1\<close>, which for a Sunday
  (\<open>getDay() = 0\<close>) is the day after: on a host in UTC the charge created on
  Sunday 2024-01-07 is keyed to Monday 2024-01-08, not to 2024-01-01.
\<close>

theorem groupChargesByPeriod_week_sunday:
  "WeekDay (created sunday_charge * 1000) = 0 \<and>
   periodKey utc_host day sunday_charge = Inr ''2024-01-07'' \<and>
   groupChargesByPeriod utc_host [sunday_charge] week =
     Inr [\<lparr>period = ''2024-01-08'', revenue = 10, transactionCount = 1\<rparr>]"
  by code_simp

section \<open>The empty transaction set\<close>

text \<open>
  C2, as stated: with no transaction retained the insights are the empty list.
  They are not: the average line is pushed unconditionally.
\<close>

theorem analyzeRevenueTrends_empty_insights_counterexample:
  "map_option insights (analyzeRevenueTrends utc_host (one_page []) january) =
     Some [''Average revenue per period: $0.00''] \<and>
   map_option insights (analyzeRevenueTrends utc_host (one_page []) january) \<noteq> Some []"
  by code_simp

text \<open>
  C2, amended: whenever the pagination ends with no transaction retained,
  \<open>analyzeRevenueTrends\<close> returns the success payload with a zero summary, no period
  data, and the single insight line \<open>Average revenue per period: $0.00\<close>.
\<close>

theorem analyzeRevenueTrends_empty:
  assumes "fetchCharges api (toTimestamp h (startDate args)) (toTimestamp h (endDate args))
             None [] = Some (Inr [])"
  shows "analyzeRevenueTrends h api args =
     Some \<lparr>summary =
             \<lparr>totalRevenue = 0, summary_transactionCount = 0, averageTransaction = 0\<rparr>,
           periodData = [],
           insights = [''Average revenue per period: $0.00''],
           error = None\<rparr>"
  using assms
  by (simp add: analyzeRevenueTrends_def analyzeRevenueTrends_try_def summarize_def
      groupChargesByPeriod_def generateInsights_def number_div_def number_mul_def toFixed2_0)

theorem analyzeRevenueTrends_empty_witness:
  "analyzeRevenueTrends utc_host (one_page []) january =
     Some \<lparr>summary =
             \<lparr>totalRevenue = 0, summary_transactionCount = 0, averageTransaction = 0\<rparr>,
           periodData = [],
           insights = [''Average revenue per period: $0.00''],
           error = None\<rparr>"
proof -
  have "fetchCharges (one_page []) (toTimestamp utc_host (startDate january))
          (toTimestamp utc_host (endDate january)) None [] = Some (Inr [])"
    by code_simp
  then show ?thesis
    by (rule analyzeRevenueTrends_empty)
qed

section \<open>Failures stay inside\<close>






section \<open>The refund contract\<close>

text \<open>
  C9. \<open>issueRefund\<close> submits the payment identifier with the amount converted to
  minor units by rounding: a whole number of minor units, the nearest to the binary64
  product \<open>amount * 100\<close> (the greater on a tie), which itself is within \<open>2^-53\<close>
  relative of the exact product. If the ledger confirms, the result has status
  \<open>success\<close> and the amount the ledger confirmed, divided by 100; if the ledger call
  fails, the result has status \<open>error\<close>, amount 0 and an error message. It is a
  total function: nothing is raised.
\<close>

theorem issueRefund_contract:
  "\<exists>n. refund_request args =
         \<lparr>payment_intent = paymentIntentId args, params_amount = of_int n\<rparr> \<and>
       of_int n \<le> number_mul (args_amount args) 100 + 1 / 2 \<and>
       number_mul (args_amount args) 100 + 1 / 2 < of_int n + 1 \<and>
       \<bar>number_mul (args_amount args) 100 - args_amount args * 100\<bar>
         \<le> \<bar>args_amount args * 100\<bar> / 2 ^ 53 \<and>
       (\<forall>r. refunds_create api
               \<lparr>payment_intent = paymentIntentId args, params_amount = of_int n\<rparr> = Inr r \<longrightarrow>
            issueRefund api args =
              \<lparr>refund_status = ''success'',
               amountRefunded = binary64 (refund_amount r / 100),
               refund_error = None\<rparr> \<and>
            \<bar>amountRefunded (issueRefund api args) - refund_amount r / 100\<bar>
              \<le> \<bar>refund_amount r / 100\<bar> / 2 ^ 53) \<and>
       (\<forall>e. refunds_create api
               \<lparr>payment_intent = paymentIntentId args, params_amount = of_int n\<rparr> = Inl e \<longrightarrow>
            issueRefund api args =
              \<lparr>refund_status = ''error'',
               amountRefunded = 0,
               refund_error = Some (''Failed to issue refund: '' @
                 (case e of Error m \<Rightarrow> m | NonError \<Rightarrow> ''Unknown error''))\<rparr>)"
proof -
  let ?x = "number_mul (args_amount args) 100"
  let ?n = "\<lfloor>?x + 1 / 2\<rfloor>"
  have req: "refund_request args =
         \<lparr>payment_intent = paymentIntentId args, params_amount = of_int ?n\<rparr>"
    by (simp add: refund_request_def Math_round_def)
  have lo: "of_int ?n \<le> ?x + 1 / 2" and hi: "?x + 1 / 2 < of_int ?n + 1"
    by linarith+
  have err: "\<bar>?x - args_amount args * 100\<bar> \<le> \<bar>args_amount args * 100\<bar> / 2 ^ 53"
    unfolding number_mul_def by (rule binary64_error)
  have ok: "issueRefund api args =
              \<lparr>refund_status = ''success'',
               amountRefunded = binary64 (refund_amount r / 100),
               refund_error = None\<rparr> \<and>
            \<bar>amountRefunded (issueRefund api args) - refund_amount r / 100\<bar>
              \<le> \<bar>refund_amount r / 100\<bar> / 2 ^ 53"
    if "refunds_create api
               \<lparr>payment_intent = paymentIntentId args, params_amount = of_int ?n\<rparr> = Inr r" for r
    using that binary64_error [of "refund_amount r / 100"]
    by (simp add: issueRefund_def req number_div_def)
  have bad: "issueRefund api args =
              \<lparr>refund_status = ''error'',
               amountRefunded = 0,
               refund_error = Some (''Failed to issue refund: '' @
                 (case e of Error m \<Rightarrow> m | NonError \<Rightarrow> ''Unknown error''))\<rparr>"
    if "refunds_create api
               \<lparr>payment_intent = paymentIntentId args, params_amount = of_int ?n\<rparr> = Inl e" for e
    using that by (simp add: issueRefund_def req errorMessage_def)
  from req lo hi err ok bad show ?thesis
    by blast
qed

theorem issueRefund_contract_witness:
  "number_mul (args_amount refund_19_99) 100 = 8791694975696895 / 4398046511104 \<and>
   refund_request refund_19_99 = \<lparr>payment_intent = ''pi_1'', params_amount = 1999\<rparr> \<and>
   issueRefund confirming_500 refund_19_99 =
     \<lparr>refund_status = ''success'', amountRefunded = 5, refund_error = None\<rparr> \<and>
   issueRefund rejecting refund_19_99 =
     \<lparr>refund_status = ''error'', amountRefunded = 0,
      refund_error = Some ''Failed to issue refund: Refund amount exceeds charge amount''\<rparr>"
proof -
  have x: "number_mul (args_amount refund_19_99) 100 = 8791694975696895 / 4398046511104"
    by code_simp
  have p: "paymentIntentId refund_19_99 = ''pi_1''"
    by (simp add: refund_19_99_def)
  have five: "binary64 (500 / 100) = 5"
    by code_simp
  have n: "m = 1999"
    if "rat_of_int m \<le> number_mul (args_amount refund_19_99) 100 + 1 / 2"
      and "number_mul (args_amount refund_19_99) 100 + 1 / 2 < rat_of_int m + 1" for m
  proof -
    from that have "rat_of_int m < rat_of_int 2000" and "rat_of_int 1998 < rat_of_int m"
      unfolding x by simp_all
    then have "m < 2000" and "1998 < m"
      by (simp_all only: of_int_less_iff)
    then show ?thesis
      by simp
  qed
  have good: "refund_request refund_19_99 = \<lparr>payment_intent = ''pi_1'', params_amount = 1999\<rparr> \<and>
      issueRefund confirming_500 refund_19_99 =
        \<lparr>refund_status = ''success'', amountRefunded = 5, refund_error = None\<rparr>"
  proof -
    from issueRefund_contract [of refund_19_99 confirming_500] obtain m where
      r: "refund_request refund_19_99 =
           \<lparr>payment_intent = paymentIntentId refund_19_99, params_amount = of_int m\<rparr>"
      and b: "rat_of_int m \<le> number_mul (args_amount refund_19_99) 100 + 1 / 2"
        "number_mul (args_amount refund_19_99) 100 + 1 / 2 < rat_of_int m + 1"
      and s: "\<forall>r. refunds_create confirming_500
               \<lparr>payment_intent = paymentIntentId refund_19_99, params_amount = of_int m\<rparr> = Inr r \<longrightarrow>
            issueRefund confirming_500 refund_19_99 =
              \<lparr>refund_status = ''success'',
               amountRefunded = binary64 (refund_amount r / 100),
               refund_error = None\<rparr> \<and>
            \<bar>amountRefunded (issueRefund confirming_500 refund_19_99) - refund_amount r / 100\<bar>
              \<le> \<bar>refund_amount r / 100\<bar> / 2 ^ 53"
      by blast
    have "refunds_create confirming_500
               \<lparr>payment_intent = paymentIntentId refund_19_99, params_amount = of_int m\<rparr> =
          Inr \<lparr>refund_amount = 500\<rparr>"
      by (simp add: confirming_500_def)
    with s have "issueRefund confirming_500 refund_19_99 =
              \<lparr>refund_status = ''success'',
               amountRefunded = binary64 (refund_amount \<lparr>refund_amount = 500\<rparr> / 100),
               refund_error = None\<rparr>"
      by blast
    with r n [OF b] p five show ?thesis
      by simp
  qed
  have fail: "issueRefund rejecting refund_19_99 =
     \<lparr>refund_status = ''error'', amountRefunded = 0,
      refund_error = Some ''Failed to issue refund: Refund amount exceeds charge amount''\<rparr>"
  proof -
    from issueRefund_contract [of refund_19_99 rejecting] obtain m where
      s: "\<forall>e. refunds_create rejecting
               \<lparr>payment_intent = paymentIntentId refund_19_99, params_amount = of_int m\<rparr> = Inl e \<longrightarrow>
            issueRefund rejecting refund_19_99 =
              \<lparr>refund_status = ''error'',
               amountRefunded = 0,
               refund_error = Some (''Failed to issue refund: '' @
                 (case e of Error m \<Rightarrow> m | NonError \<Rightarrow> ''Unknown error''))\<rparr>"
      by blast
    have "refunds_create rejecting
               \<lparr>payment_intent = paymentIntentId refund_19_99, params_amount = of_int m\<rparr> =
          Inl (Error ''Refund amount exceeds charge amount'')"
      by (simp add: rejecting_def)
    with s have "issueRefund rejecting refund_19_99 =
              \<lparr>refund_status = ''error'',
               amountRefunded = 0,
               refund_error = Some (''Failed to issue refund: '' @
                 (case Error ''Refund amount exceeds charge amount'' of
                    Error m \<Rightarrow> m | NonError \<Rightarrow> ''Unknown error''))\<rparr>"
      by blast
    then show ?thesis
      by simp
  qed
  from x good fail show ?thesis
    by blast
qed

section \<open>The insight lines\<close>

lemma hd_insort_key:
  "hd (insort_key f x xs) = (if xs = [] \<or> f x \<le> f (hd xs) then x else hd xs)"
  by (cases xs) auto

lemma insort_key_not_Nil [simp]: "insort_key f x xs \<noteq> []"
  by (cases xs) auto

lemma sort_key_Nil_iff [simp]: "sort_key f xs = [] \<longleftrightarrow> xs = []"
  by (cases xs) auto

lemma hd_sort_key_first_least:
  fixes f :: "'a \<Rightarrow> 'b::linorder"
  assumes "\<forall>x\<in>set xs. f e < f x" and "\<forall>y\<in>set ys. f e \<le> f y"
  shows "hd (sort_key f (xs @ e # ys)) = e"
  using assms(1)
proof (induction xs)
  case Nil
  show ?case
  proof (cases "ys = []")
    case True
    then show ?thesis by simp
  next
    case False
    then have "hd (sort_key f ys) \<in> set ys"
      by (metis hd_in_set set_sort sort_key_Nil_iff)
    with assms(2) show ?thesis
      by (simp add: hd_insort_key)
  qed
next
  case (Cons x xs)
  then have "hd (sort_key f (xs @ e # ys)) = e" and "f e < f x"
    by simp_all
  then show ?case
    by (auto simp: hd_insort_key)
qed

lemma foldl_add_sum_list:
  "foldl (\<lambda>sum p. sum + f p) a xs = a + sum_list (map f xs)" for a :: nat
  by (induction xs arbitrary: a) simp_all

lemma sorted_hd_least:
  fixes f :: "'a \<Rightarrow> 'b::linorder"
  assumes "sorted (map f zs)" and "z \<in> set zs"
  shows "f (hd zs) \<le> f z"
  using assms by (cases zs) auto

lemma sorted_last_greatest:
  fixes f :: "'a \<Rightarrow> 'b::linorder"
  assumes "sorted (map f zs)" and "z \<in> set zs"
  shows "f z \<le> f (last zs)"
  using assms by (induction zs) (auto split: if_splits)

lemma generateInsights_unfold:
  "generateInsights h pd totalRev =
     (if 1 \<le> length pd
      then [''Highest revenue period: '' @ period (hd (sort_key (\<lambda>e. - revenue e) pd)) @
            '' with $'' @ toFixed2 h (revenue (hd (sort_key (\<lambda>e. - revenue e) pd)))]
      else []) @
     (if 2 \<le> length pd
      then [''Lowest revenue period: '' @ period (last (sort_key (\<lambda>e. - revenue e) pd)) @
            '' with $'' @ toFixed2 h (revenue (last (sort_key (\<lambda>e. - revenue e) pd)))]
      else []) @
     [''Average revenue per period: $'' @
      toFixed2 h (if pd = [] then 0 else number_div totalRev (of_nat (length pd)))] @
     (if 0 < sum_list (map transactionCount pd)
      then [''Processed '' @ digits (int (sum_list (map transactionCount pd))) @
            '' successful transactions during this period.'']
      else [])"
proof -
  consider "pd = []" | "length pd = 1" | "2 \<le> length pd"
    by (cases pd) (auto simp: Suc_le_eq)
  then show ?thesis
  proof cases
    case 1
    then show ?thesis
      by (simp add: generateInsights_def)
  next
    case 2
    then have "pd \<noteq> []" by auto
    with 2 show ?thesis
      unfolding generateInsights_def Let_def foldl_add_sum_list
      by (cases "0 < sum_list (map transactionCount pd)") (simp_all del: sort_key_simps)
  next
    case 3
    then have "pd \<noteq> []" "1 < length pd" by auto
    with 3 show ?thesis
      unfolding generateInsights_def Let_def foldl_add_sum_list
      by (cases "0 < sum_list (map transactionCount pd)") (simp_all del: sort_key_simps)
  qed
qed

text \<open>
  C5. The lines of \<open>generateInsights\<close> come in one fixed order: the highest-revenue
  line if there is at least one bucket, the lowest-revenue line if there are at least
  two, the average line always (total revenue divided by the number of buckets, 0
  without buckets, with two decimals), and the count line if the transaction counts of
  the buckets sum to more than 0; nothing else. The bucket named as highest has the
  greatest revenue of all buckets, the one named as lowest the least.
\<close>

theorem generateInsights_lines:
  "\<exists>best worst.
     (pd \<noteq> [] \<longrightarrow>
        best \<in> set pd \<and> worst \<in> set pd \<and>
        (\<forall>e\<in>set pd. revenue worst \<le> revenue e \<and> revenue e \<le> revenue best)) \<and>
     generateInsights h pd totalRev =
       (if 1 \<le> length pd
        then [''Highest revenue period: '' @ period best @ '' with $'' @
              toFixed2 h (revenue best)]
        else []) @
       (if 2 \<le> length pd
        then [''Lowest revenue period: '' @ period worst @ '' with $'' @
              toFixed2 h (revenue worst)]
        else []) @
       [''Average revenue per period: $'' @
        toFixed2 h (if pd = [] then 0 else number_div totalRev (of_nat (length pd)))] @
       (if 0 < sum_list (map transactionCount pd)
        then [''Processed '' @ digits (int (sum_list (map transactionCount pd))) @
              '' successful transactions during this period.'']
        else [])"
proof -
  let ?s = "sort_key (\<lambda>e. - revenue e) pd"
  have srt: "sorted (map (\<lambda>e. - revenue e) ?s)"
    by (rule sorted_sort_key)
  have "hd ?s \<in> set pd \<and> last ?s \<in> set pd" if "pd \<noteq> []"
    using that by (metis hd_in_set last_in_set set_sort sort_key_Nil_iff)
  moreover have "revenue (last ?s) \<le> revenue e \<and> revenue e \<le> revenue (hd ?s)"
    if "e \<in> set pd" for e
    using sorted_hd_least [OF srt, of e] sorted_last_greatest [OF srt, of e] that
    by simp
  ultimately show ?thesis
    using generateInsights_unfold [of h pd totalRev] by blast
qed

theorem generateInsights_lines_witness:
  "generateInsights utc_host [jan01, jan02] 6 =
     [''Highest revenue period: 2024-01-02 with $5.00'',
      ''Lowest revenue period: 2024-01-01 with $1.00'',
      ''Average revenue per period: $3.00'',
      ''Processed 3 successful transactions during this period.'']"
proof -
  obtain best worst where
    m: "best \<in> set [jan01, jan02]" "worst \<in> set [jan01, jan02]"
      "\<forall>e\<in>set [jan01, jan02]. revenue worst \<le> revenue e \<and> revenue e \<le> revenue best"
    and g: "generateInsights utc_host [jan01, jan02] 6 =
       (if 1 \<le> length [jan01, jan02]
        then [''Highest revenue period: '' @ period best @ '' with $'' @
              toFixed2 utc_host (revenue best)]
        else []) @
       (if 2 \<le> length [jan01, jan02]
        then [''Lowest revenue period: '' @ period worst @ '' with $'' @
              toFixed2 utc_host (revenue worst)]
        else []) @
       [''Average revenue per period: $'' @
        toFixed2 utc_host
          (if [jan01, jan02] = [] then 0 else number_div 6 (of_nat (length [jan01, jan02])))] @
       (if 0 < sum_list (map transactionCount [jan01, jan02])
        then [''Processed '' @ digits (int (sum_list (map transactionCount [jan01, jan02]))) @
              '' successful transactions during this period.'']
        else [])"
    using generateInsights_lines [of "[jan01, jan02]" utc_host 6] by blast
  have r: "revenue jan01 = 1" "revenue jan02 = 5"
    by (simp_all add: jan01_def jan02_def)
  from m r have b: "best = jan02" and w: "worst = jan01"
    by auto
  have v: "toFixed2 utc_host 5 = ''5.00''" "toFixed2 utc_host 1 = ''1.00''"
    "toFixed2 utc_host (number_div 6 2) = ''3.00''" "digits 3 = ''3''"
    by code_simp+
  have c: "sum_list (map transactionCount [jan01, jan02]) = 3"
    by (simp add: jan01_def jan02_def)
  show ?thesis
    unfolding g b w c
    by (simp add: v r) (simp add: jan01_def jan02_def)
qed

text \<open>
  C6. Among buckets that share the maximum revenue, the one that comes first in the
  input is reported as highest: a bucket with strictly smaller revenues before it and
  no greater revenue after it is the one named in the first line.
\<close>

theorem generateInsights_tie_break:
  assumes "\<forall>x\<in>set xs. revenue x < revenue e" and "\<forall>y\<in>set ys. revenue y \<le> revenue e"
  shows "hd (generateInsights h (xs @ e # ys) totalRev) =
     ''Highest revenue period: '' @ period e @ '' with $'' @ toFixed2 h (revenue e)"
proof -
  have "hd (sort_key (\<lambda>e. - revenue e) (xs @ e # ys)) = e"
    using assms by (intro hd_sort_key_first_least) simp_all
  then show ?thesis
    by (simp add: generateInsights_unfold del: sort_key_simps)
qed

theorem generateInsights_tie_break_witness:
  "hd (generateInsights utc_host [jan01, jan02, jan03] 11) =
     ''Highest revenue period: 2024-01-02 with $5.00''"
proof -
  have "\<forall>x\<in>set [jan01]. revenue x < revenue jan02"
    and "\<forall>y\<in>set [jan03]. revenue y \<le> revenue jan02"
    by (simp_all add: jan01_def jan02_def jan03_def)
  then have "hd (generateInsights utc_host ([jan01] @ jan02 # [jan03]) 11) =
     ''Highest revenue period: '' @ period jan02 @ '' with $'' @ toFixed2 utc_host (revenue jan02)"
    by (rule generateInsights_tie_break)
  moreover have "toFixed2 utc_host 5 = ''5.00''"
    by code_simp
  ultimately show ?thesis
    by (simp add: jan02_def)
qed

section \<open>Every retained charge is in one bucket\<close>

lemma sum_list_update:
  fixes f :: "'v \<Rightarrow> nat"
  shows "sum_list (map (\<lambda>kv. f (snd kv)) (AList.update k v al)) +
           (case map_of al k of None \<Rightarrow> 0 | Some w \<Rightarrow> f w) =
         sum_list (map (\<lambda>kv. f (snd kv)) al) + f v"
  by (induction al) auto

lemma addCharge_counts:
  assumes "addCharge h g m c = Inr m'"
  shows "sum_list (map (\<lambda>kv. tally_count (snd kv)) m') =
         Suc (sum_list (map (\<lambda>kv. tally_count (snd kv)) m))"
proof -
  from assms obtain k v where
    m': "m' = AList.update k v m" and v: "tally_count v = tally_count (Map_get_or m k) + 1"
    by (auto simp: addCharge_def Let_def split: sum.splits)
  have "tally_count (Map_get_or m k) = (case map_of m k of None \<Rightarrow> 0 | Some w \<Rightarrow> tally_count w)"
    by (simp add: Map_get_or_def split: option.splits)
  with sum_list_update [of tally_count k v m] v show ?thesis
    unfolding m' by simp
qed

lemma addCharge_distinct:
  assumes "addCharge h g m c = Inr m'" and "distinct (map fst m)"
  shows "distinct (map fst m')"
  using assms
  by (auto simp: addCharge_def Let_def distinct_update split: sum.splits)

lemma forEach_charge_counts:
  assumes "forEach_charge h g cs m = Inr m'" and "distinct (map fst m)"
  shows "distinct (map fst m') \<and>
         sum_list (map (\<lambda>kv. tally_count (snd kv)) m') =
           sum_list (map (\<lambda>kv. tally_count (snd kv)) m) + length cs"
  using assms
proof (induction cs arbitrary: m)
  case Nil
  then show ?case by simp
next
  case (Cons c cs)
  from Cons.prems(1) obtain m1 where
    a: "addCharge h g m c = Inr m1" and r: "forEach_charge h g cs m1 = Inr m'"
    by (auto split: sum.splits)
  from addCharge_distinct [OF a Cons.prems(2)] have d: "distinct (map fst m1)" .
  from Cons.IH [OF r d] addCharge_counts [OF a] show ?case
    by simp
qed

lemma sum_list_map_insort_key:
  fixes f :: "'a \<Rightarrow> nat"
  shows "sum_list (map f (insort_key k x xs)) = f x + sum_list (map f xs)"
  by (induction xs) auto

lemma sum_list_map_sort_key:
  fixes f :: "'a \<Rightarrow> nat"
  shows "sum_list (map f (sort_key k xs)) = sum_list (map f xs)"
  by (induction xs) (auto simp: sum_list_map_insort_key)

lemma distinct_map_sort_key:
  "distinct (map f (sort_key k xs)) = distinct (map f xs)"
  by (simp add: distinct_map)

lemma groupChargesByPeriod_counts:
  assumes "groupChargesByPeriod h cs g = Inr pd"
  shows "sum_list (map transactionCount pd) = length cs \<and> distinct (map period pd)"
proof -
  from assms obtain m where
    f: "forEach_charge h g cs [] = Inr m"
    and pd: "pd = sort_key (\<lambda>e. map collation_rank (period e)) (map to_entry m)"
    by (auto simp: groupChargesByPeriod_def split: sum.splits)
  from forEach_charge_counts [OF f] have
    d: "distinct (map fst m)" and s: "sum_list (map (\<lambda>kv. tally_count (snd kv)) m) = length cs"
    by simp_all
  have "map period (map to_entry m) = map fst m"
    and "map transactionCount (map to_entry m) = map (\<lambda>kv. tally_count (snd kv)) m"
    by (simp_all add: to_entry_def)
  with d s show ?thesis
    unfolding pd by (simp add: sum_list_map_sort_key distinct_map_sort_key del: map_map)
qed

text \<open>
  C10. In a success payload of \<open>analyzeRevenueTrends\<close> the transaction count of the
  summary is the sum of the transaction counts of the period data, and the period
  labels are pairwise distinct.
\<close>

theorem analyzeRevenueTrends_counts:
  assumes "analyzeRevenueTrends h api args = Some p" and "error p = None"
  shows "summary_transactionCount (summary p) = sum_list (map transactionCount (periodData p)) \<and>
         distinct (map period (periodData p))"
proof -
  from assms obtain cs where s: "summarize h (groupBy_arg args) cs = Inr p"
    by (auto simp: analyzeRevenueTrends_def analyzeRevenueTrends_try_def analyze_failed_def
        split: option.splits sum.splits)
  then obtain pd where g: "groupChargesByPeriod h cs (groupBy_arg args) = Inr pd"
    and p: "periodData p = pd" "summary_transactionCount (summary p) = length cs"
    by (auto simp: summarize_def Let_def split: sum.splits)
  from groupChargesByPeriod_counts [OF g] p show ?thesis
    by simp
qed

theorem analyzeRevenueTrends_counts_witness:
  "analyzeRevenueTrends utc_host (one_page sample_charges) january = Some sample_payload \<and>
   summary_transactionCount (summary sample_payload) = 3 \<and>
   sum_list (map transactionCount (periodData sample_payload)) = 3 \<and>
   distinct (map period (periodData sample_payload))"
proof -
  have a: "analyzeRevenueTrends utc_host (one_page sample_charges) january = Some sample_payload"
    by code_simp
  have b: "error sample_payload = None"
    by (simp add: sample_payload_def)
  have c: "summary_transactionCount (summary sample_payload) = 3"
    by (simp add: sample_payload_def)
  from analyzeRevenueTrends_counts [OF a b] a c show ?thesis
    by simp
qed

section \<open>Only succeeded charges count\<close>

lemma fetchCharges_view_step:
  assumes run: "fetchCharges api st0 en0 sa0 acc0 = Some y0"
    and same: "\<forall>params. map_sum (\<lambda>e. e) page_view (charges_list api params) =
                   map_sum (\<lambda>e. e) page_view (charges_list api' params)"
  shows "fetchCharges api' st0 en0 sa0 acc0 = Some y0"
proof -
  let ?P = "\<lambda>a st en sa acc y. a = api \<longrightarrow> fetchCharges api' st en sa acc = Some y"
  have "?P api st0 en0 sa0 acc0 y0"
  proof (rule fetchCharges.raw_induct [where P = ?P])
    show "fetchCharges api st0 en0 sa0 acc0 = Some y0"
      by (rule run)
  next
    fix f a st en sa acc y
    assume IH: "\<And>a st en sa acc y. f a st en sa acc = Some y \<Longrightarrow> ?P a st en sa acc y"
    let ?params = "\<lparr>created_gte = st, created_lte = en, list_limit = 100, starting_after = sa\<rparr>"
    assume body: "(case charges_list a ?params of
        Inl e \<Rightarrow> Some (Inl e)
      | Inr response \<Rightarrow>
          let successfulCharges = filter (\<lambda>c. status c = ''succeeded'') (data response);
              charges' = acc @ successfulCharges;
              hasMore = has_more response;
              startingAfter' =
                (if hasMore \<and> length (data response) > 0
                 then Some (charge_id (last (data response))) else sa)
          in if hasMore
             then f a st en startingAfter' charges'
             else Some (Inr charges')) = Some y"
    show "?P a st en sa acc y"
    proof
      assume a: "a = api"
      from same have sm: "map_sum (\<lambda>e. e) page_view (charges_list api ?params) =
                   map_sum (\<lambda>e. e) page_view (charges_list api' ?params)"
        by blast
      show "fetchCharges api' st en sa acc = Some y"
      proof (cases "charges_list api ?params")
        case (Inl e)
        with sm have "charges_list api' ?params = Inl e"
          by (cases "charges_list api' ?params") simp_all
        with body Inl a show ?thesis
          by (subst fetchCharges.simps) simp
      next
        case (Inr r)
        with sm obtain r' where
          r': "charges_list api' ?params = Inr r'" and v: "page_view r = page_view r'"
          by (cases "charges_list api' ?params") simp_all
        from v have hm: "has_more r' = has_more r"
          and fl: "filter (\<lambda>c. status c = ''succeeded'') (data r') =
               filter (\<lambda>c. status c = ''succeeded'') (data r)"
          and cur: "(if has_more r' \<and> length (data r') > 0
                 then Some (charge_id (last (data r'))) else sa) =
                (if has_more r \<and> length (data r) > 0
                 then Some (charge_id (last (data r))) else sa)"
          by (auto simp: page_view_def split: if_splits)
        show ?thesis
        proof (cases "has_more r")
          case True
          with body Inr a have "f api st en
              (if has_more r \<and> length (data r) > 0
               then Some (charge_id (last (data r))) else sa)
              (acc @ filter (\<lambda>c. status c = ''succeeded'') (data r)) = Some y"
            by (simp add: Let_def)
          from IH [OF this] have "fetchCharges api' st en
              (if has_more r \<and> length (data r) > 0
               then Some (charge_id (last (data r))) else sa)
              (acc @ filter (\<lambda>c. status c = ''succeeded'') (data r)) = Some y"
            by simp
          with r' hm fl cur True show ?thesis
            by (subst fetchCharges.simps) (simp add: Let_def)
        next
          case False
          with body Inr a r' hm fl show ?thesis
            by (subst fetchCharges.simps) (simp add: Let_def)
        qed
      qed
    qed
  qed
  then show ?thesis
    by simp
qed

lemma fetchCharges_view_eq:
  assumes "\<forall>params. map_sum (\<lambda>e. e) page_view (charges_list api params) =
                   map_sum (\<lambda>e. e) page_view (charges_list api' params)"
  shows "fetchCharges api st en sa acc = fetchCharges api' st en sa acc"
proof (cases "fetchCharges api st en sa acc")
  case None
  show ?thesis
  proof (cases "fetchCharges api' st en sa acc")
    case None
    with \<open>fetchCharges api st en sa acc = None\<close> show ?thesis by simp
  next
    case (Some y)
    from assms have "\<forall>params. map_sum (\<lambda>e. e) page_view (charges_list api' params) =
                   map_sum (\<lambda>e. e) page_view (charges_list api params)"
      by simp
    from fetchCharges_view_step [OF Some this] None show ?thesis
      by simp
  qed
next
  case (Some y)
  from fetchCharges_view_step [OF Some assms] Some show ?thesis
    by simp
qed

lemma fetchCharges_succeeded:
  assumes run: "fetchCharges api st0 en0 sa0 acc0 = Some (Inr cs0)"
    and acc: "\<forall>c\<in>set acc0. status c = ''succeeded''"
  shows "\<forall>c\<in>set cs0. status c = ''succeeded''"
proof -
  let ?ok = "\<lambda>cs::charge list. \<forall>c\<in>set cs. status c = ''succeeded''"
  let ?P = "\<lambda>(a::stripe) (st::int option) (en::int option) (sa::string option) acc y.
              ?ok acc \<longrightarrow> (case y of Inl (e::thrown) \<Rightarrow> True | Inr cs \<Rightarrow> ?ok cs)"
  have "?P api st0 en0 sa0 acc0 (Inr cs0)"
  proof (rule fetchCharges.raw_induct [where P = ?P])
    show "fetchCharges api st0 en0 sa0 acc0 = Some (Inr cs0)"
      by (rule run)
  next
    fix f and a :: stripe and st en sa and acc :: "charge list"
      and y :: "thrown + charge list"
    assume IH: "\<And>a st en sa acc y. f a st en sa acc = Some y \<Longrightarrow> ?P a st en sa acc y"
    let ?params = "\<lparr>created_gte = st, created_lte = en, list_limit = 100, starting_after = sa\<rparr>"
    assume body: "(case charges_list a ?params of
        Inl e \<Rightarrow> Some (Inl e)
      | Inr response \<Rightarrow>
          let successfulCharges = filter (\<lambda>c. status c = ''succeeded'') (data response);
              charges' = acc @ successfulCharges;
              hasMore = has_more response;
              startingAfter' =
                (if hasMore \<and> length (data response) > 0
                 then Some (charge_id (last (data response))) else sa)
          in if hasMore
             then f a st en startingAfter' charges'
             else Some (Inr charges')) = Some y"
    show "?P a st en sa acc y"
    proof
      assume ok: "?ok acc"
      show "case y of Inl e \<Rightarrow> True | Inr cs \<Rightarrow> ?ok cs"
      proof (cases "charges_list a ?params")
        case (Inl e)
        with body show ?thesis by auto
      next
        case (Inr r)
        show ?thesis
        proof (cases "has_more r")
          case True
          with body Inr have "f a st en
              (if has_more r \<and> length (data r) > 0
               then Some (charge_id (last (data r))) else sa)
              (acc @ filter (\<lambda>c. status c = ''succeeded'') (data r)) = Some y"
            by (simp add: Let_def)
          from IH [OF this] ok show ?thesis
            by auto
        next
          case False
          with body Inr ok show ?thesis
            by (auto simp: Let_def)
        qed
      qed
    qed
  qed
  with acc show ?thesis
    by simp
qed

text \<open>
  C7. \<open>analyzeRevenueTrends\<close> retains only the transactions whose status is
  \<open>succeeded\<close>, and the others contribute nothing, whatever their amount: two ledgers
  whose answers agree on failures, on \<open>has_more\<close>, on the cursor and on the succeeded
  charges of every page lead to the same result, and every success payload is computed
  from a list of succeeded charges alone.
\<close>

theorem analyzeRevenueTrends_succeeded_only:
  "((\<forall>params. map_sum (\<lambda>e. e) page_view (charges_list api params) =
               map_sum (\<lambda>e. e) page_view (charges_list api' params)) \<longrightarrow>
      analyzeRevenueTrends h api args = analyzeRevenueTrends h api' args) \<and>
   (\<forall>p. analyzeRevenueTrends h api args = Some p \<and> error p = None \<longrightarrow>
      (\<exists>cs. (\<forall>c\<in>set cs. status c = ''succeeded'') \<and>
            summarize h (groupBy_arg args) cs = Inr p))"
proof (intro conjI impI allI)
  assume "\<forall>params. map_sum (\<lambda>e. e) page_view (charges_list api params) =
               map_sum (\<lambda>e. e) page_view (charges_list api' params)"
  from fetchCharges_view_eq [OF this] show
    "analyzeRevenueTrends h api args = analyzeRevenueTrends h api' args"
    by (simp add: analyzeRevenueTrends_def analyzeRevenueTrends_try_def)
next
  fix p
  assume a: "analyzeRevenueTrends h api args = Some p \<and> error p = None"
  then obtain cs where
    f: "fetchCharges api (toTimestamp h (startDate args)) (toTimestamp h (endDate args))
          None [] = Some (Inr cs)"
    and s: "summarize h (groupBy_arg args) cs = Inr p"
    by (auto simp: analyzeRevenueTrends_def analyzeRevenueTrends_try_def analyze_failed_def
        split: option.splits sum.splits)
  from fetchCharges_succeeded [OF f] s show
    "\<exists>cs. (\<forall>c\<in>set cs. status c = ''succeeded'') \<and> summarize h (groupBy_arg args) cs = Inr p"
    by auto
qed

theorem analyzeRevenueTrends_succeeded_only_witness:
  "analyzeRevenueTrends utc_host (one_page sample_charges) january =
     analyzeRevenueTrends utc_host (one_page settled_charges) january \<and>
   analyzeRevenueTrends utc_host (one_page sample_charges) january = Some sample_payload \<and>
   (\<exists>cs. (\<forall>c\<in>set cs. status c = ''succeeded'') \<and>
         summarize utc_host (groupBy_arg january) cs = Inr sample_payload)"
proof -
  have v: "\<forall>params. map_sum (\<lambda>e. e) page_view (charges_list (one_page sample_charges) params) =
               map_sum (\<lambda>e. e) page_view (charges_list (one_page settled_charges) params)"
    by (simp add: one_page_def page_view_def sample_charges_def settled_charges_def)
  have a: "analyzeRevenueTrends utc_host (one_page sample_charges) january = Some sample_payload"
    by code_simp
  have b: "error sample_payload = None"
    by (simp add: sample_payload_def)
  from analyzeRevenueTrends_succeeded_only
         [of "one_page sample_charges" "one_page settled_charges" utc_host january]
       v a b
  show ?thesis
    by blast
qed

section \<open>The revenue of a bucket\<close>

lemma accumulate_error:
  fixes r t e B :: rat and as :: "int list"
  assumes "\<forall>a\<in>set as. 0 \<le> a" and "0 \<le> t" and "\<bar>r - t\<bar> \<le> e"
    and "t + of_int (sum_list as) / 100 \<le> B"
    and "e + 4 * B * of_nat (length as) / 2 ^ 53 \<le> B"
  shows "\<bar>foldl (\<lambda>r a. number_add r (number_div (of_int a) 100)) r as -
           (t + of_int (sum_list as) / 100)\<bar>
         \<le> e + 4 * B * of_nat (length as) / 2 ^ 53"
  using assms
proof (induction as arbitrary: r t e)
  case Nil
  then show ?case by simp
next
  case (Cons a as)
  let ?u = "(1::rat) / 2 ^ 53"
  let ?y = "number_div (of_int a) 100"
  let ?z = "r + ?y"
  let ?r' = "number_add r ?y"
  let ?t' = "t + of_int a / 100"
  let ?e' = "e + 4 * B * ?u"
  from Cons.prems(1) have a0: "0 \<le> a" and as0: "\<forall>a\<in>set as. 0 \<le> a"
    by simp_all
  from as0 have s0: "0 \<le> sum_list as"
    by (simp add: sum_list_nonneg)
  have ar: "(0::rat) \<le> of_int a / 100" and sr: "(0::rat) \<le> of_int (sum_list as) / 100"
    using a0 s0 by simp_all
  from Cons.prems(4) have tB: "?t' + of_int (sum_list as) / 100 \<le> B"
    by (simp add: add_divide_distrib)
  from Cons.prems(3) have e0: "0 \<le> e"
    by linarith
  from tB ar sr Cons.prems(2) have B0: "0 \<le> B" and aB: "of_int a / 100 \<le> B" and t'B: "?t' \<le> B"
    by linarith+
  have len: "4 * B * of_nat (length (a # as)) / 2 ^ 53 = 4 * B * ?u + 4 * B * of_nat (length as) / 2 ^ 53"
    by (simp add: algebra_simps add_divide_distrib)
  have uB: "0 \<le> B * ?u" and lB: "0 \<le> 4 * B * of_nat (length as) / 2 ^ 53"
    using B0 by simp_all
  from Cons.prems(5) len uB lB have eB: "e \<le> B" and e'B: "?e' + 4 * B * of_nat (length as) / 2 ^ 53 \<le> B"
    by linarith+
  have "\<bar>?y - of_int a / 100\<bar> \<le> \<bar>of_int a / 100\<bar> * ?u"
    using binary64_error [of "of_int a / 100"] by (simp add: number_div_def)
  also have "\<dots> \<le> B * ?u"
    using ar aB by (intro mult_right_mono) simp_all
  finally have y: "\<bar>?y - of_int a / 100\<bar> \<le> B * ?u" .
  have uB1: "B * ?u \<le> B"
    using B0 by (simp add: field_simps)
  from y Cons.prems(3) have z: "\<bar>?z - ?t'\<bar> \<le> e + B * ?u"
    by linarith
  with t'B eB uB1 Cons.prems(2) ar have zabs: "\<bar>?z\<bar> \<le> 3 * B"
    by linarith
  have "\<bar>?r' - ?z\<bar> \<le> \<bar>?z\<bar> * ?u"
    using binary64_error [of ?z] by (simp add: number_add_def)
  also have "\<dots> \<le> 3 * B * ?u"
    using zabs by (intro mult_right_mono) simp_all
  finally have "\<bar>?r' - ?z\<bar> \<le> 3 * B * ?u" .
  with z have r': "\<bar>?r' - ?t'\<bar> \<le> ?e'"
    by linarith
  have t'0: "0 \<le> ?t'"
    using Cons.prems(2) ar by linarith
  from Cons.IH [OF as0 t'0 r' tB e'B]
  have "\<bar>foldl (\<lambda>r a. number_add r (number_div (of_int a) 100)) ?r' as -
           (?t' + of_int (sum_list as) / 100)\<bar>
         \<le> ?e' + 4 * B * of_nat (length as) / 2 ^ 53" .
  then show ?case
    by (simp add: len add_divide_distrib algebra_simps)
qed

lemma bucket_revenue_exact:
  fixes as :: "int list"
  assumes nonneg: "\<forall>a\<in>set as. 0 \<le> a"
    and bound: "(2 * int (length as) + 1) * sum_list as < 2 ^ 51"
  shows "number_div
           (Math_round (number_mul
              (foldl (\<lambda>r a. number_add r (number_div (of_int a) 100)) 0 as) 100)) 100 =
         number_div (of_int (sum_list as)) 100"
proof -
  let ?S = "sum_list as"
  let ?n = "length as"
  let ?B = "of_int ?S / 100 :: rat"
  let ?x = "foldl (\<lambda>r a. number_add r (number_div (of_int a) 100)) 0 as"
  let ?E = "4 * ?B * of_nat ?n / 2 ^ 53"
  from nonneg have S0: "0 \<le> ?S"
    by (simp add: sum_list_nonneg)
  then have B0: "0 \<le> ?B"
    by simp
  have bnd: "(2 * of_nat ?n + 1) * of_int ?S < (2::rat) ^ 51"
  proof -
    have "rat_of_int ((2 * int ?n + 1) * ?S) < rat_of_int (2 ^ 51)"
      using bound by (simp only: of_int_less_iff)
    then show ?thesis
      by simp
  qed
  have EB: "?E \<le> ?B"
  proof (cases "?S = 0")
    case True
    then show ?thesis by simp
  next
    case False
    with S0 have "1 \<le> ?S" by simp
    then have "(2 * int ?n + 1) * 1 \<le> (2 * int ?n + 1) * ?S"
      by (intro mult_left_mono) simp_all
    then have "2 * int ?n + 1 \<le> (2 * int ?n + 1) * ?S"
      by (simp only: mult_1_right)
    with bound have "2 * int ?n + 1 < 2 ^ 51"
      by linarith
    then have "int ?n < 2 ^ 50"
      by simp
    then have "rat_of_int (int ?n) < rat_of_int (2 ^ 50)"
      by (simp only: of_int_less_iff)
    then have n: "(of_nat ?n :: rat) < 2 ^ 50"
      by simp
    have "?E = ?B * (4 * of_nat ?n / 2 ^ 53)"
      by simp
    also have "\<dots> \<le> ?B * 1"
      using B0 n by (intro mult_left_mono) simp_all
    finally show ?thesis by simp
  qed
  have "\<bar>?x - (0 + of_int ?S / 100)\<bar> \<le> 0 + ?E"
    using nonneg EB by (intro accumulate_error) simp_all
  then have x: "\<bar>?x - ?B\<bar> \<le> ?E"
    by simp
  with EB B0 have xabs: "\<bar>?x\<bar> \<le> 2 * ?B"
    by linarith
  let ?z = "number_mul ?x 100"
  have "\<bar>?z - ?x * 100\<bar> \<le> \<bar>?x * 100\<bar> / 2 ^ 53"
    using binary64_error [of "?x * 100"] by (simp add: number_mul_def)
  also have "\<dots> \<le> 2 * of_int ?S / 2 ^ 53"
    using xabs by (simp add: abs_mult)
  finally have z1: "\<bar>?z - ?x * 100\<bar> \<le> 2 * of_int ?S / 2 ^ 53" .
  have "?x * 100 - of_int ?S = (?x - ?B) * 100"
    by simp
  then have "\<bar>?x * 100 - of_int ?S\<bar> = \<bar>?x - ?B\<bar> * 100"
    by (simp only: abs_mult)
  also have "\<dots> \<le> ?E * 100"
    using x by (intro mult_right_mono) simp_all
  also have "?E * 100 = 4 * of_nat ?n * of_int ?S / 2 ^ 53"
    by simp
  finally have z2: "\<bar>?x * 100 - of_int ?S\<bar> \<le> 4 * of_nat ?n * of_int ?S / 2 ^ 53" .
  have "4 * of_nat ?n * of_int ?S / 2 ^ 53 + 2 * of_int ?S / 2 ^ 53 =
        (2 * of_nat ?n + 1) * of_int ?S / (2::rat) ^ 52"
    by (simp add: field_simps)
  also have "\<dots> < 2 ^ 51 / 2 ^ 52"
    using bnd by (intro divide_strict_right_mono) simp_all
  finally have "4 * of_nat ?n * of_int ?S / 2 ^ 53 + 2 * of_int ?S / 2 ^ 53 < (1::rat) / 2"
    by simp
  with z1 z2 have "\<bar>?z - of_int ?S\<bar> < 1 / 2"
    by linarith
  then have "of_int ?S \<le> ?z + 1 / 2" and "?z + 1 / 2 < of_int ?S + 1"
    by linarith+
  then have "\<lfloor>?z + 1 / 2\<rfloor> = ?S"
    by (rule floor_unique)
  then show ?thesis
    by (simp add: Math_round_def)
qed

lemma addCharge_lookup:
  assumes "addCharge h g m c = Inr m1"
  shows "Map_get_or m1 k =
     (if periodKey h g c = Inr k
      then \<lparr>tally_revenue = number_add (tally_revenue (Map_get_or m k))
                               (number_div (of_int (amount c)) 100),
            tally_count = tally_count (Map_get_or m k) + 1\<rparr>
      else Map_get_or m k)"
  using assms
  by (auto simp: addCharge_def Let_def Map_get_or_def update_conv' split: sum.splits)

lemma forEach_charge_revenue:
  assumes "forEach_charge h g cs m = Inr m'"
  shows "tally_revenue (Map_get_or m' k) =
     foldl (\<lambda>r a. number_add r (number_div (of_int a) 100))
       (tally_revenue (Map_get_or m k))
       (map amount (filter (\<lambda>c. periodKey h g c = Inr k) cs))"
  using assms
proof (induction cs arbitrary: m)
  case Nil
  then show ?case by simp
next
  case (Cons c cs)
  from Cons.prems obtain m1 where
    a: "addCharge h g m c = Inr m1" and r: "forEach_charge h g cs m1 = Inr m'"
    by (auto split: sum.splits)
  from Cons.IH [OF r] addCharge_lookup [OF a, of k] show ?case
    by simp
qed

lemma entry_revenue:
  assumes g: "groupChargesByPeriod h cs g = Inr pd" and e: "e \<in> set pd"
  shows "revenue e =
     number_div (Math_round (number_mul
       (foldl (\<lambda>r a. number_add r (number_div (of_int a) 100)) 0
          (map amount (filter (\<lambda>c. periodKey h g c = Inr (period e)) cs))) 100)) 100"
proof -
  from g obtain m where
    f: "forEach_charge h g cs [] = Inr m"
    and pd: "pd = sort_key (\<lambda>e. map collation_rank (period e)) (map to_entry m)"
    by (auto simp: groupChargesByPeriod_def split: sum.splits)
  from forEach_charge_counts [OF f] have d: "distinct (map fst m)"
    by simp
  from e pd obtain k t where kt: "(k, t) \<in> set m" and e': "e = to_entry (k, t)"
    by auto
  from d kt have "map_of m k = Some t"
    by simp
  then have "Map_get_or m k = t"
    by (simp add: Map_get_or_def)
  with forEach_charge_revenue [OF f, of k] have
    "tally_revenue t = foldl (\<lambda>r a. number_add r (number_div (of_int a) 100)) 0
          (map amount (filter (\<lambda>c. periodKey h g c = Inr k) cs))"
    by (simp add: Map_get_or_def)
  then show ?thesis
    by (simp add: e' to_entry_def)
qed

lemma sum_list_filter_le:
  fixes f :: "'a \<Rightarrow> int"
  assumes "\<forall>x\<in>set xs. 0 \<le> f x"
  shows "sum_list (map f (filter P xs)) \<le> sum_list (map f xs)"
  using assms by (induction xs) auto

lemma bucket_bound:
  fixes f :: "'a \<Rightarrow> int"
  assumes nonneg: "\<forall>x\<in>set xs. 0 \<le> f x"
    and bound: "(2 * int (length xs) + 1) * sum_list (map f xs) < 2 ^ 51"
  shows "(2 * int (length (map f (filter P xs))) + 1) * sum_list (map f (filter P xs)) < 2 ^ 51"
proof -
  have l: "2 * int (length (map f (filter P xs))) + 1 \<le> 2 * int (length xs) + 1"
    by simp
  have s: "sum_list (map f (filter P xs)) \<le> sum_list (map f xs)"
    using nonneg by (rule sum_list_filter_le)
  have "0 \<le> sum_list (map f (filter P xs))"
    using nonneg by (intro sum_list_nonneg) auto
  with l s have "(2 * int (length (map f (filter P xs))) + 1) * sum_list (map f (filter P xs))
      \<le> (2 * int (length xs) + 1) * sum_list (map f xs)"
    by (intro mult_mono) simp_all
  with bound show ?thesis
    by linarith
qed

lemma entry_revenue_exact:
  assumes g: "groupChargesByPeriod h cs g = Inr pd" and e: "e \<in> set pd"
    and nonneg: "\<forall>c\<in>set cs. 0 \<le> amount c"
    and bound: "(2 * int (length cs) + 1) * sum_list (map amount cs) < 2 ^ 51"
  shows "revenue e =
        number_div
          (of_int (sum_list (map amount (filter (\<lambda>c. periodKey h g c = Inr (period e)) cs))))
          100"
proof -
  let ?as = "map amount (filter (\<lambda>c. periodKey h g c = Inr (period e)) cs)"
  from nonneg have "\<forall>a\<in>set ?as. 0 \<le> a"
    by auto
  moreover from nonneg bound have "(2 * int (length ?as) + 1) * sum_list ?as < 2 ^ 51"
    by (intro bucket_bound) simp_all
  ultimately show ?thesis
    unfolding entry_revenue [OF g e] by (rule bucket_revenue_exact)
qed

text \<open>
  C4, as stated: every bucket's revenue is the integer sum of the bucket's minor-unit
  amounts, divided by 100 once, with no accumulation in major units. The source adds
  \<open>charge.amount / 100\<close> to the bucket for each charge, in binary64. For two charges of
  900000000000013 and 900000000000046 minor units on one day the reported revenue is
  18000000000000.60, while the amounts sum to 1800000000000059 minor units, that is
  18000000000000.59.
\<close>

theorem groupChargesByPeriod_drift_counterexample:
  "groupChargesByPeriod utc_host drift_charges day =
     Inr [\<lparr>period = ''2024-01-01'', revenue = 2304000000000077 / 128, transactionCount = 2\<rparr>] \<and>
   toFixed2 utc_host (2304000000000077 / 128) = ''18000000000000.60'' \<and>
   sum_list (map amount drift_charges) = 1800000000000059 \<and>
   number_div (of_int (sum_list (map amount drift_charges))) 100 = 4608000000000151 / 256 \<and>
   toFixed2 utc_host (4608000000000151 / 256) = ''18000000000000.59'' \<and>
   (2304000000000077 / 128 :: rat) \<noteq> 4608000000000151 / 256"
  by code_simp

text \<open>
  C4, amended: the revenue of every bucket is the binary64 sum, charge by charge in the
  order of the input, of the amounts of the bucket's charges each divided by 100,
  rounded to two decimals once at output. Whenever the amounts are non-negative and
  \<open>(2 n + 1) * total < 2^51\<close> for \<open>n\<close> charges of \<open>total\<close> minor units, it equals the
  integer sum of the bucket's minor-unit amounts divided by 100.
\<close>

theorem groupChargesByPeriod_revenue:
  assumes "groupChargesByPeriod h cs g = Inr pd" and "e \<in> set pd"
  shows "revenue e =
     number_div (Math_round (number_mul
       (foldl (\<lambda>r a. number_add r (number_div (of_int a) 100)) 0
          (map amount (filter (\<lambda>c. periodKey h g c = Inr (period e)) cs))) 100)) 100 \<and>
     ((\<forall>c\<in>set cs. 0 \<le> amount c) \<and>
      (2 * int (length cs) + 1) * sum_list (map amount cs) < 2 ^ 51 \<longrightarrow>
      revenue e =
        number_div
          (of_int (sum_list (map amount (filter (\<lambda>c. periodKey h g c = Inr (period e)) cs))))
          100)"
proof (intro conjI impI)
  show r: "revenue e =
     number_div (Math_round (number_mul
       (foldl (\<lambda>r a. number_add r (number_div (of_int a) 100)) 0
          (map amount (filter (\<lambda>c. periodKey h g c = Inr (period e)) cs))) 100)) 100"
    using assms by (rule entry_revenue)
  assume b: "(\<forall>c\<in>set cs. 0 \<le> amount c) \<and>
      (2 * int (length cs) + 1) * sum_list (map amount cs) < 2 ^ 51"
  let ?as = "map amount (filter (\<lambda>c. periodKey h g c = Inr (period e)) cs)"
  from b have "\<forall>a\<in>set ?as. 0 \<le> a"
    by auto
  moreover from b have "(2 * int (length ?as) + 1) * sum_list ?as < 2 ^ 51"
    by (intro bucket_bound) simp_all
  ultimately show "revenue e = number_div (of_int (sum_list ?as)) 100"
    unfolding r by (rule bucket_revenue_exact)
qed

theorem groupChargesByPeriod_revenue_witness:
  "groupChargesByPeriod utc_host settled_charges day =
     Inr [\<lparr>period = ''2024-01-01'', revenue = 30, transactionCount = 2\<rparr>,
          \<lparr>period = ''2024-01-02'', revenue = 15, transactionCount = 1\<rparr>] \<and>
   sum_list (map amount
     (filter (\<lambda>c. periodKey utc_host day c = Inr ''2024-01-01'') settled_charges)) = 3000 \<and>
   revenue \<lparr>period = ''2024-01-01'', revenue = 30, transactionCount = 2\<rparr> =
     number_div (of_int (sum_list (map amount
       (filter (\<lambda>c. periodKey utc_host day c = Inr ''2024-01-01'') settled_charges)))) 100"
proof -
  let ?e = "\<lparr>period = ''2024-01-01'', revenue = 30, transactionCount = 2\<rparr>"
  let ?pd = "[?e, \<lparr>period = ''2024-01-02'', revenue = 15, transactionCount = 1\<rparr>]"
  have g: "groupChargesByPeriod utc_host settled_charges day = Inr ?pd"
    by code_simp
  have e: "?e \<in> set ?pd"
    by simp
  have b: "(\<forall>c\<in>set settled_charges. 0 \<le> amount c) \<and>
      (2 * int (length settled_charges) + 1) * sum_list (map amount settled_charges) < 2 ^ 51"
    by (simp add: settled_charges_def)
  have s: "sum_list (map amount
     (filter (\<lambda>c. periodKey utc_host day c = Inr ''2024-01-01'') settled_charges)) = 3000"
    by code_simp
  from groupChargesByPeriod_revenue [OF g e] b have
    "revenue ?e = number_div (of_int (sum_list (map amount
       (filter (\<lambda>c. periodKey utc_host day c = Inr (period ?e)) settled_charges)))) 100"
    by blast
  with g s show ?thesis
    by simp
qed

section \<open>The buckets against the total\<close>

lemma addCharge_keys:
  assumes "addCharge h g m c = Inr m1"
  shows "\<exists>k. periodKey h g c = Inr k \<and> fst ` set m1 = insert k (fst ` set m)"
proof -
  from assms obtain k v where k: "periodKey h g c = Inr k" and m1: "m1 = AList.update k v m"
    by (auto simp: addCharge_def Let_def split: sum.splits)
  from m1 have "fst ` set m1 = insert k (fst ` set m)"
    by (simp add: dom_update)
  with k show ?thesis
    by blast
qed

lemma forEach_charge_keys:
  assumes "forEach_charge h g cs m = Inr m'"
  shows "fst ` set m \<subseteq> fst ` set m' \<and>
         (\<forall>c\<in>set cs. \<exists>k\<in>fst ` set m'. periodKey h g c = Inr k)"
  using assms
proof (induction cs arbitrary: m)
  case Nil
  then show ?case by simp
next
  case (Cons c cs)
  from Cons.prems obtain m1 where
    a: "addCharge h g m c = Inr m1" and r: "forEach_charge h g cs m1 = Inr m'"
    by (auto split: sum.splits)
  from addCharge_keys [OF a] obtain k where
    k: "periodKey h g c = Inr k" and m1: "fst ` set m1 = insert k (fst ` set m)"
    by blast
  from Cons.IH [OF r] have
    sub: "fst ` set m1 \<subseteq> fst ` set m'"
    and rest: "\<forall>c\<in>set cs. \<exists>k\<in>fst ` set m'. periodKey h g c = Inr k"
    by simp_all
  from sub m1 have "k \<in> fst ` set m'" and "fst ` set m \<subseteq> fst ` set m'"
    by auto
  with k rest show ?case
    by auto
qed

lemma sum_list_delta_0:
  fixes v :: int
  assumes "x \<notin> set ks"
  shows "(\<Sum>k\<leftarrow>ks. if x = k then v else 0) = 0"
  using assms by (induction ks) auto

lemma sum_list_delta:
  fixes v :: int
  assumes "distinct ks" and "x \<in> set ks"
  shows "(\<Sum>k\<leftarrow>ks. if x = k then v else 0) = v"
  using assms by (induction ks) (auto simp: sum_list_delta_0)

lemma partition_sum:
  fixes f :: "'a \<Rightarrow> int" and key :: "'a \<Rightarrow> 'e + 'k"
  assumes "distinct ks" and "\<forall>c\<in>set cs. \<exists>k\<in>set ks. key c = Inr k"
  shows "(\<Sum>k\<leftarrow>ks. sum_list (map f (filter (\<lambda>c. key c = Inr k) cs))) = sum_list (map f cs)"
  using assms(2)
proof (induction cs)
  case Nil
  then show ?case by simp
next
  case (Cons c cs)
  then obtain kc where kc: "kc \<in> set ks" "key c = Inr kc"
    by auto
  have "(\<Sum>k\<leftarrow>ks. sum_list (map f (filter (\<lambda>c. key c = Inr k) (c # cs)))) =
        (\<Sum>k\<leftarrow>ks. (if kc = k then f c else 0) +
                   sum_list (map f (filter (\<lambda>c. key c = Inr k) cs)))"
    using kc by (intro arg_cong [where f = sum_list] map_cong) auto
  also have "\<dots> = (\<Sum>k\<leftarrow>ks. if kc = k then f c else 0) +
                  (\<Sum>k\<leftarrow>ks. sum_list (map f (filter (\<lambda>c. key c = Inr k) cs)))"
    by (simp add: sum_list_addf)
  also have "\<dots> = f c + sum_list (map f cs)"
    using Cons sum_list_delta [OF assms(1) kc(1)] by simp
  finally show ?case
    by simp
qed

lemma foldl_add_exact:
  assumes "\<forall>c\<in>set cs. 0 \<le> amount c" and "0 \<le> k"
    and "k + sum_list (map amount cs) \<le> 2 ^ 53"
  shows "foldl (\<lambda>sum c. number_add sum (of_int (amount c))) (of_int k) cs =
         of_int (k + sum_list (map amount cs))"
  using assms
proof (induction cs arbitrary: k)
  case Nil
  then show ?case by simp
next
  case (Cons c cs)
  then have c0: "0 \<le> amount c" and rest: "\<forall>c\<in>set cs. 0 \<le> amount c"
    by simp_all
  from rest have "0 \<le> sum_list (map amount cs)"
    by (intro sum_list_nonneg) auto
  with Cons.prems c0 have "\<bar>k + amount c\<bar> \<le> 2 ^ 53"
    by simp
  then have "number_add (of_int k) (of_int (amount c)) = of_int (k + amount c)"
    using binary64_of_int [of "k + amount c"] by (simp add: number_add_def)
  moreover have "foldl (\<lambda>sum c. number_add sum (of_int (amount c))) (of_int (k + amount c)) cs =
         of_int (k + amount c + sum_list (map amount cs))"
    using Cons.prems c0 rest by (intro Cons.IH) simp_all
  ultimately show ?case
    by (simp add: add.assoc)
qed

lemma sum_list_abs_diff_le:
  fixes f g b :: "'a \<Rightarrow> rat"
  assumes "\<forall>x\<in>set xs. \<bar>f x - g x\<bar> \<le> b x"
  shows "\<bar>sum_list (map f xs) - sum_list (map g xs)\<bar> \<le> sum_list (map b xs)"
  using assms
proof (induction xs)
  case Nil
  then show ?case by simp
next
  case (Cons x xs)
  then have "\<bar>f x - g x\<bar> \<le> b x"
    and "\<bar>sum_list (map f xs) - sum_list (map g xs)\<bar> \<le> sum_list (map b xs)"
    by simp_all
  then show ?case
    by simp
qed

text \<open>
  C3, as stated: for every non-empty list of charges the bucket revenues sum to the
  total revenue within one cent per bucket. In binary64 this fails for amounts of
  trillions: two charges of 900000000000013 and 900000000000021 minor units on one day
  give one bucket whose revenue exceeds the total revenue by \<open>3/256\<close>, more than a cent.
\<close>

theorem summarize_revenue_counterexample:
  "\<not> isl (summarize utc_host day heavy_charges) \<and>
   map revenue (periodData (projr (summarize utc_host day heavy_charges))) =
     [2304000000000045 / 128] \<and>
   totalRevenue (summary (projr (summarize utc_host day heavy_charges))) =
     4608000000000087 / 256 \<and>
   \<bar>2304000000000045 / 128 - 4608000000000087 / 256\<bar> = (3 / 256 :: rat) \<and>
   (1 / 100 :: rat) < 3 / 256"
  by code_simp

text \<open>
  C3, amended: for every non-empty list of charges with non-negative amounts and
  \<open>(2 n + 1) * total < 2^51\<close> (\<open>n\<close> charges of \<open>total\<close> minor units), the sum of the
  bucket revenues of \<open>groupChargesByPeriod\<close> differs from the total revenue (the sum of
  the minor-unit amounts divided by 100) by at most one cent per bucket.
\<close>

theorem summarize_revenue_conserved:
  assumes s: "summarize h g cs = Inr p" and ne: "cs \<noteq> []"
    and nonneg: "\<forall>c\<in>set cs. 0 \<le> amount c"
    and bound: "(2 * int (length cs) + 1) * sum_list (map amount cs) < 2 ^ 51"
  shows "\<bar>sum_list (map revenue (periodData p)) - totalRevenue (summary p)\<bar>
         \<le> of_nat (length (periodData p)) / 100"
proof -
  let ?S = "sum_list (map amount cs)"
  let ?key = "periodKey h g"
  let ?Sk = "\<lambda>k. sum_list (map amount (filter (\<lambda>c. ?key c = Inr k) cs))"
  from s obtain pd where g: "groupChargesByPeriod h cs g = Inr pd"
    and pd: "periodData p = pd"
    and tr: "totalRevenue (summary p) =
       number_div (foldl (\<lambda>sum c. number_add sum (of_int (amount c))) 0 cs) 100"
    by (auto simp: summarize_def Let_def split: sum.splits)
  from nonneg have S0: "0 \<le> ?S"
    by (intro sum_list_nonneg) auto
  from ne have n1: "1 \<le> int (length cs)"
    by (cases cs) simp_all
  have S51: "?S < 2 ^ 51"
  proof -
    from n1 S0 have "1 * ?S \<le> (2 * int (length cs) + 1) * ?S"
      by (intro mult_right_mono) simp_all
    with bound show ?thesis
      by simp
  qed
  \<comment> \<open>the total is the exact sum, divided once\<close>
  have "foldl (\<lambda>sum c. number_add sum (of_int (amount c))) (of_int 0) cs = of_int (0 + ?S)"
    using nonneg S51 by (intro foldl_add_exact) simp_all
  with tr have total: "totalRevenue (summary p) = binary64 (of_int ?S / 100)"
    by (simp add: number_div_def)
  \<comment> \<open>every bucket is the exact sum of its charges, divided once\<close>
  have bucket: "revenue e = binary64 (of_int (?Sk (period e)) / 100)" if "e \<in> set pd" for e
    using entry_revenue_exact [OF g that nonneg bound] by (simp add: number_div_def)
  \<comment> \<open>the buckets partition the charges\<close>
  from g obtain m where
    f: "forEach_charge h g cs [] = Inr m"
    and srt: "pd = sort_key (\<lambda>e. map collation_rank (period e)) (map to_entry m)"
    by (auto simp: groupChargesByPeriod_def split: sum.splits)
  have "map period (map to_entry m) = map fst m"
    by (simp add: to_entry_def)
  then have "set (map period (map to_entry m)) = fst ` set m"
    by (simp only: set_map)
  then have per: "set (map period pd) = fst ` set m"
    unfolding srt by (simp del: map_map)
  from groupChargesByPeriod_counts [OF g] have
    dist: "distinct (map period pd)" and cnt: "sum_list (map transactionCount pd) = length cs"
    by simp_all
  from forEach_charge_keys [OF f] per have
    cover: "\<forall>c\<in>set cs. \<exists>k\<in>set (map period pd). ?key c = Inr k"
    by simp
  have part: "(\<Sum>e\<leftarrow>pd. ?Sk (period e)) = ?S"
    using partition_sum [OF dist cover, of amount] by (simp add: comp_def)
  from cnt ne have pd1: "pd \<noteq> []"
    by auto
  \<comment> \<open>the rounding errors\<close>
  let ?exact = "\<lambda>e. rat_of_int (?Sk (period e)) / 100"
  let ?err = "\<lambda>e. rat_of_int (?Sk (period e)) / 100 / 2 ^ 53"
  have "\<bar>revenue e - ?exact e\<bar> \<le> ?err e" if "e \<in> set pd" for e
  proof -
    from nonneg have "0 \<le> ?Sk (period e)"
      by (intro sum_list_nonneg) auto
    then have "\<bar>?exact e\<bar> = ?exact e"
      by simp
    with binary64_error [of "?exact e"] bucket [OF that] show ?thesis
      by simp
  qed
  then have "\<bar>sum_list (map revenue pd) - sum_list (map ?exact pd)\<bar> \<le> sum_list (map ?err pd)"
    by (intro sum_list_abs_diff_le) simp
  moreover have "sum_list (map ?exact pd) = of_int ?S / 100"
  proof -
    have "sum_list (map ?exact pd) = rat_of_int (\<Sum>e\<leftarrow>pd. ?Sk (period e)) / 100"
      by (induction pd) (simp_all add: add_divide_distrib)
    with part show ?thesis
      by simp
  qed
  moreover have "sum_list (map ?err pd) = of_int ?S / 100 / 2 ^ 53"
  proof -
    have "sum_list (map ?err pd) = rat_of_int (\<Sum>e\<leftarrow>pd. ?Sk (period e)) / 100 / 2 ^ 53"
      by (induction pd) (simp_all add: add_divide_distrib)
    with part show ?thesis
      by simp
  qed
  moreover have "\<bar>binary64 (of_int ?S / 100) - of_int ?S / 100\<bar> \<le> of_int ?S / 100 / 2 ^ 53"
    using binary64_error [of "rat_of_int ?S / 100"] S0 by simp
  ultimately have "\<bar>sum_list (map revenue pd) - totalRevenue (summary p)\<bar>
      \<le> 2 * (of_int ?S / 100 / 2 ^ 53)"
    unfolding total by linarith
  also have "\<dots> \<le> 1 / 100"
  proof -
    have "rat_of_int ?S < rat_of_int (2 ^ 51)"
      using S51 by (simp only: of_int_less_iff)
    then have "rat_of_int ?S < 2 ^ 51"
      by simp
    then show ?thesis
      by simp
  qed
  also have "\<dots> \<le> of_nat (length pd) / 100"
  proof -
    from pd1 have "1 \<le> length pd"
      by (cases pd) simp_all
    then have "(1::rat) \<le> of_nat (length pd)"
      by simp
    then show ?thesis
      by (intro divide_right_mono) simp_all
  qed
  finally show ?thesis
    by (simp add: pd)
qed

theorem summarize_revenue_conserved_witness:
  "summarize utc_host day settled_charges = Inr sample_payload \<and>
   \<bar>sum_list (map revenue (periodData sample_payload)) - totalRevenue (summary sample_payload)\<bar>
     \<le> of_nat (length (periodData sample_payload)) / 100"
proof -
  have s: "summarize utc_host day settled_charges = Inr sample_payload"
    by code_simp
  have ne: "settled_charges \<noteq> []"
    by (simp add: settled_charges_def)
  have nonneg: "\<forall>c\<in>set settled_charges. 0 \<le> amount c"
    by (simp add: settled_charges_def)
  have bound: "(2 * int (length settled_charges) + 1) * sum_list (map amount settled_charges) < 2 ^ 51"
    by (simp add: settled_charges_def)
  from summarize_revenue_conserved [OF s ne nonneg bound] s show ?thesis
    by simp
qed

end
